theory Spec2Isabelle
  imports
    Main
    "HOL-Library.Char_ord"
    "HOL-Library.List_Lexorder"
    "HOL-Library.Product_Lexorder"
    "HOL-Library.Monad_Syntax"
    "HOL-Library.Multiset"
begin

section \<open>The cuckoo hash tables of main.py\<close>

text \<open>
  \<^verbatim>\<open>cuckoo_table1\<close> and \<^verbatim>\<open>cuckoo_table2\<close> are Python lists of
  \<^verbatim>\<open>CUCKOO_SIZE\<close> entries, each \<^verbatim>\<open>None\<close> or a pair \<^verbatim>\<open>(key, value)\<close>.
  The two hash functions reduce an MD5 and a SHA-1 digest, read as an integer, modulo the
  table size. The digests come from \<^verbatim>\<open>hashlib\<close>, which is not part of the repository:
  every function below takes the two digest functions (\<open>md5\<close>, \<open>sha1\<close>: the integer
  value of the hex digest of a key) as parameters.
\<close>

type_synonym slot = "(string \<times> string) option"
type_synonym table = "slot list"
type_synonym digest = "string \<Rightarrow> nat"

definition CUCKOO_SIZE :: nat where
  "CUCKOO_SIZE = 1024"

definition empty_table :: table where
  "empty_table = replicate CUCKOO_SIZE None"

definition cuckoo_hash1 :: "digest \<Rightarrow> string \<Rightarrow> nat" where
  "cuckoo_hash1 md5 key = md5 key mod CUCKOO_SIZE"

definition cuckoo_hash2 :: "digest \<Rightarrow> string \<Rightarrow> nat" where
  "cuckoo_hash2 sha1 key = sha1 key mod CUCKOO_SIZE"

text \<open>
  The loop of \<^verbatim>\<open>cuckoo_insert\<close>, with the number of iterations that are left as its
  first argument. It ends either by placing the pair it carries (the \<^verbatim>\<open>return True\<close>
  of the source) or by running out of iterations, and then the pair held in the local
  variables \<^verbatim>\<open>key\<close> and \<^verbatim>\<open>value\<close> is the one displaced last.
\<close>

datatype outcome =
    Placed table table
  | Exhausted string string table table

fun cuckoo_loop ::
  "digest \<Rightarrow> digest \<Rightarrow> nat \<Rightarrow> string \<Rightarrow> string \<Rightarrow> table \<Rightarrow> table \<Rightarrow> outcome" where
  "cuckoo_loop md5 sha1 0 key v t1 t2 = Exhausted key v t1 t2"
| "cuckoo_loop md5 sha1 (Suc n) key v t1 t2 =
     (let pos1 = cuckoo_hash1 md5 key in
      (case t1 ! pos1 of
        None \<Rightarrow> Placed (t1[pos1 := Some (key, v)]) t2
      | Some (key1, v1) \<Rightarrow>
          (if key1 = key then Placed (t1[pos1 := Some (key, v)]) t2
           else
            (let t1' = t1[pos1 := Some (key, v)];
                 pos2 = cuckoo_hash2 sha1 key1 in
             (case t2 ! pos2 of
               None \<Rightarrow> Placed t1' (t2[pos2 := Some (key1, v1)])
             | Some (key2, v2) \<Rightarrow>
                 (if key2 = key1 then Placed t1' (t2[pos2 := Some (key1, v1)])
                  else cuckoo_loop md5 sha1 n key2 v2 t1' (t2[pos2 := Some (key1, v1)])))))))"

definition cuckoo_insert ::
  "digest \<Rightarrow> digest \<Rightarrow> string \<Rightarrow> string \<Rightarrow> nat \<Rightarrow> table \<times> table \<Rightarrow> bool \<times> table \<times> table" where
  "cuckoo_insert md5 sha1 key v max_iterations tt =
     (case cuckoo_loop md5 sha1 max_iterations key v (fst tt) (snd tt) of
        Placed t1 t2 \<Rightarrow> (True, t1, t2)
      | Exhausted _ _ t1 t2 \<Rightarrow> (False, t1, t2))"

definition cuckoo_lookup :: "digest \<Rightarrow> digest \<Rightarrow> string \<Rightarrow> table \<times> table \<Rightarrow> string option" where
  "cuckoo_lookup md5 sha1 key tt =
     (let pos1 = cuckoo_hash1 md5 key in
      case fst tt ! pos1 of
        Some (key1, v1) \<Rightarrow>
          if key1 = key then Some v1
          else
            (let pos2 = cuckoo_hash2 sha1 key in
             case snd tt ! pos2 of
               Some (key2, v2) \<Rightarrow> if key2 = key then Some v2 else None
             | None \<Rightarrow> None)
      | None \<Rightarrow>
          (let pos2 = cuckoo_hash2 sha1 key in
           case snd tt ! pos2 of
             Some (key2, v2) \<Rightarrow> if key2 = key then Some v2 else None
           | None \<Rightarrow> None))"

text \<open>The keys a table holds, slot by slot.\<close>

fun stored_keys :: "table \<Rightarrow> string list" where
  "stored_keys [] = []"
| "stored_keys (None # t) = stored_keys t"
| "stored_keys (Some (k, v) # t) = k # stored_keys t"

section \<open>The red-black tree of bst.py\<close>

text \<open>
  The tree is a linked structure that is updated in place, with parent links, so it is
  modelled over an explicit store: \<open>heap\<close> maps the address of every \<^verbatim>\<open>Node\<close>
  object to its fields. A reference is \<open>None\<close> (Python's \<^verbatim>\<open>None\<close>) or \<open>Some a\<close>,
  the object at address \<open>a\<close>; comparing two nodes with \<^verbatim>\<open>==\<close> or \<^verbatim>\<open>!=\<close> compares
  references, since \<^verbatim>\<open>Node\<close> defines no equality of its own. The sentinel
  \<^verbatim>\<open>self.NIL\<close> is the object at address 0, and \<open>fresh\<close> is the address that the next
  \<^verbatim>\<open>Node(...)\<close> gets.

  Every operation returns an \<open>option\<close>: \<open>None\<close> stands for a call that does not return
  normally, because it reads or writes an attribute of \<^verbatim>\<open>None\<close> (AttributeError),
  compares a key with \<^verbatim>\<open>None\<close> (TypeError), or never leaves its loop.
\<close>

type_synonym ref = "nat option"

record node =
  key :: "string option"
  val :: "string option"
  left :: ref
  right :: ref
  parent :: ref
  color :: bool

record rbtree =
  heap :: "nat \<Rightarrow> node"
  fresh :: nat
  root :: ref

definition Node :: "string option \<Rightarrow> string option \<Rightarrow> bool \<Rightarrow> node" where
  "Node k v c = \<lparr>key = k, val = v, left = None, right = None, parent = None, color = c\<rparr>"

definition NIL :: ref where
  "NIL = Some 0"

definition RedBlackTree :: rbtree where
  "RedBlackTree = \<lparr>heap = (\<lambda>a. Node None None False), fresh = 1, root = NIL\<rparr>"

text \<open>Reading the attribute \<open>f\<close> of the object behind a reference, and updating it.\<close>

definition attr :: "(node \<Rightarrow> 'a) \<Rightarrow> rbtree \<Rightarrow> ref \<Rightarrow> 'a option" where
  "attr f T r = (case r of None \<Rightarrow> None | Some a \<Rightarrow> Some (f (heap T a)))"

definition assign :: "rbtree \<Rightarrow> ref \<Rightarrow> (node \<Rightarrow> node) \<Rightarrow> rbtree option" where
  "assign T r g =
     (case r of None \<Rightarrow> None | Some a \<Rightarrow> Some (T\<lparr>heap := (heap T)(a := g (heap T a))\<rparr>))"

definition left_rotate :: "rbtree \<Rightarrow> ref \<Rightarrow> rbtree option" where
  "left_rotate T x =
     do {
       y \<leftarrow> attr right T x;
       yl \<leftarrow> attr left T y;
       T \<leftarrow> assign T x (\<lambda>n. n\<lparr>right := yl\<rparr>);
       yl \<leftarrow> attr left T y;
       T \<leftarrow> (if yl \<noteq> NIL then assign T yl (\<lambda>n. n\<lparr>parent := x\<rparr>) else Some T);
       xp \<leftarrow> attr parent T x;
       T \<leftarrow> assign T y (\<lambda>n. n\<lparr>parent := xp\<rparr>);
       xp \<leftarrow> attr parent T x;
       T \<leftarrow> (if xp = None then Some (T\<lparr>root := y\<rparr>)
            else do {
              xpl \<leftarrow> attr left T xp;
              if x = xpl then assign T xp (\<lambda>n. n\<lparr>left := y\<rparr>)
              else assign T xp (\<lambda>n. n\<lparr>right := y\<rparr>)
            });
       T \<leftarrow> assign T y (\<lambda>n. n\<lparr>left := x\<rparr>);
       assign T x (\<lambda>n. n\<lparr>parent := y\<rparr>)
     }"

definition right_rotate :: "rbtree \<Rightarrow> ref \<Rightarrow> rbtree option" where
  "right_rotate T x =
     do {
       y \<leftarrow> attr left T x;
       yr \<leftarrow> attr right T y;
       T \<leftarrow> assign T x (\<lambda>n. n\<lparr>left := yr\<rparr>);
       yr \<leftarrow> attr right T y;
       T \<leftarrow> (if yr \<noteq> NIL then assign T yr (\<lambda>n. n\<lparr>parent := x\<rparr>) else Some T);
       xp \<leftarrow> attr parent T x;
       T \<leftarrow> assign T y (\<lambda>n. n\<lparr>parent := xp\<rparr>);
       xp \<leftarrow> attr parent T x;
       T \<leftarrow> (if xp = None then Some (T\<lparr>root := y\<rparr>)
            else do {
              xpr \<leftarrow> attr right T xp;
              if x = xpr then assign T xp (\<lambda>n. n\<lparr>right := y\<rparr>)
              else assign T xp (\<lambda>n. n\<lparr>left := y\<rparr>)
            });
       T \<leftarrow> assign T y (\<lambda>n. n\<lparr>right := x\<rparr>);
       assign T x (\<lambda>n. n\<lparr>parent := y\<rparr>)
     }"

text \<open>
  One pass through the body of the loop of \<^verbatim>\<open>_fix_insert\<close>: \<open>fix_right\<close> is the branch
  taken when the parent of \<open>k\<close> is the right child of its own parent, \<open>fix_left\<close> the
  mirrored \<^verbatim>\<open>else\<close> branch. Both return the tree and the new \<open>k\<close>.
\<close>

definition fix_right :: "rbtree \<Rightarrow> ref \<Rightarrow> (rbtree \<times> ref) option" where
  "fix_right T k =
     do {
       p \<leftarrow> attr parent T k;
       g \<leftarrow> attr parent T p;
       u \<leftarrow> attr left T g;
       uc \<leftarrow> attr color T u;
       if uc then
         do {
           T \<leftarrow> assign T u (\<lambda>n. n\<lparr>color := False\<rparr>);
           p \<leftarrow> attr parent T k;
           T \<leftarrow> assign T p (\<lambda>n. n\<lparr>color := False\<rparr>);
           p \<leftarrow> attr parent T k;
           g \<leftarrow> attr parent T p;
           T \<leftarrow> assign T g (\<lambda>n. n\<lparr>color := True\<rparr>);
           p \<leftarrow> attr parent T k;
           g \<leftarrow> attr parent T p;
           Some (T, g)
         }
       else
         do {
           p \<leftarrow> attr parent T k;
           pl \<leftarrow> attr left T p;
           (T, k) \<leftarrow> (if k = pl then do { T \<leftarrow> right_rotate T p; Some (T, p) }
                     else Some (T, k));
           p \<leftarrow> attr parent T k;
           T \<leftarrow> assign T p (\<lambda>n. n\<lparr>color := False\<rparr>);
           p \<leftarrow> attr parent T k;
           g \<leftarrow> attr parent T p;
           T \<leftarrow> assign T g (\<lambda>n. n\<lparr>color := True\<rparr>);
           p \<leftarrow> attr parent T k;
           g \<leftarrow> attr parent T p;
           T \<leftarrow> left_rotate T g;
           Some (T, k)
         }
     }"

definition fix_left :: "rbtree \<Rightarrow> ref \<Rightarrow> (rbtree \<times> ref) option" where
  "fix_left T k =
     do {
       p \<leftarrow> attr parent T k;
       g \<leftarrow> attr parent T p;
       u \<leftarrow> attr right T g;
       uc \<leftarrow> attr color T u;
       if uc then
         do {
           T \<leftarrow> assign T u (\<lambda>n. n\<lparr>color := False\<rparr>);
           p \<leftarrow> attr parent T k;
           T \<leftarrow> assign T p (\<lambda>n. n\<lparr>color := False\<rparr>);
           p \<leftarrow> attr parent T k;
           g \<leftarrow> attr parent T p;
           T \<leftarrow> assign T g (\<lambda>n. n\<lparr>color := True\<rparr>);
           p \<leftarrow> attr parent T k;
           g \<leftarrow> attr parent T p;
           Some (T, g)
         }
       else
         do {
           p \<leftarrow> attr parent T k;
           pr \<leftarrow> attr right T p;
           (T, k) \<leftarrow> (if k = pr then do { T \<leftarrow> left_rotate T p; Some (T, p) }
                     else Some (T, k));
           p \<leftarrow> attr parent T k;
           T \<leftarrow> assign T p (\<lambda>n. n\<lparr>color := False\<rparr>);
           p \<leftarrow> attr parent T k;
           g \<leftarrow> attr parent T p;
           T \<leftarrow> assign T g (\<lambda>n. n\<lparr>color := True\<rparr>);
           p \<leftarrow> attr parent T k;
           g \<leftarrow> attr parent T p;
           T \<leftarrow> right_rotate T g;
           Some (T, k)
         }
     }"

text \<open>
  \<^verbatim>\<open>_fix_insert\<close>: the loop runs while \<open>k\<close> is not the root and its parent is red, and
  also stops as soon as \<open>k\<close> has become the root; the root is painted black at the end.
\<close>

partial_function (option) fix_insert :: "rbtree \<Rightarrow> ref \<Rightarrow> rbtree option" where
  "fix_insert T k =
     do {
       continue \<leftarrow> (if k \<noteq> root T then do { p \<leftarrow> attr parent T k; attr color T p }
                     else Some False);
       if continue then
         do {
           p \<leftarrow> attr parent T k;
           g \<leftarrow> attr parent T p;
           gr \<leftarrow> attr right T g;
           (T, k) \<leftarrow> (if p = gr then fix_right T k else fix_left T k);
           if k = root T then assign T (root T) (\<lambda>n. n\<lparr>color := False\<rparr>)
           else fix_insert T k
         }
       else assign T (root T) (\<lambda>n. n\<lparr>color := False\<rparr>)
     }"

text \<open>
  The descent of \<^verbatim>\<open>insert\<close> (its \<^verbatim>\<open>while x != self.NIL\<close> loop) for the key \<open>k\<close>:
  \<open>Inl x\<close> when the node \<open>x\<close> holds the key already, \<open>Inr y\<close> when the sentinel is
  reached below \<open>y\<close>.
\<close>

partial_function (option) descend :: "rbtree \<Rightarrow> string \<Rightarrow> ref \<Rightarrow> ref \<Rightarrow> (ref + ref) option" where
  "descend T k y x =
     (if x \<noteq> NIL then
        do {
          xk \<leftarrow> attr key T x;
          case xk of
            None \<Rightarrow> None
          | Some xk \<Rightarrow>
              if k < xk then do { l \<leftarrow> attr left T x; descend T k x l }
              else if k > xk then do { r \<leftarrow> attr right T x; descend T k x r }
              else Some (Inl x)
        }
      else Some (Inr y))"

text \<open>
  \<^verbatim>\<open>insert\<close>. The new node is created first, as in the source. When the key is found,
  the source writes the value into the node that holds it and returns; the new node was
  never linked, nothing refers to it, and it is left out of the resulting store.
\<close>

definition insert_rb :: "rbtree \<Rightarrow> string \<Rightarrow> string \<Rightarrow> rbtree option" where
  "insert_rb T k v =
     (let new_node = Some (fresh T);
          T1 = T\<lparr>heap := (heap T)(fresh T := (Node (Some k) (Some v) True)\<lparr>left := NIL, right := NIL\<rparr>),
                 fresh := Suc (fresh T)\<rparr>
      in do {
        place \<leftarrow> descend T1 k None (root T1);
        case place of
          Inl x \<Rightarrow> assign T x (\<lambda>n. n\<lparr>val := Some v\<rparr>)
        | Inr y \<Rightarrow>
            do {
              T2 \<leftarrow> assign T1 new_node (\<lambda>n. n\<lparr>parent := y\<rparr>);
              T3 \<leftarrow> (if y = None then Some (T2\<lparr>root := new_node\<rparr>)
                     else do {
                       yk \<leftarrow> attr key T2 y;
                       case yk of
                         None \<Rightarrow> None
                       | Some yk \<Rightarrow>
                           if k < yk then assign T2 y (\<lambda>n. n\<lparr>left := new_node\<rparr>)
                           else assign T2 y (\<lambda>n. n\<lparr>right := new_node\<rparr>)
                     });
              np \<leftarrow> attr parent T3 new_node;
              if np = None then assign T3 new_node (\<lambda>n. n\<lparr>color := False\<rparr>)
              else do {
                npp \<leftarrow> attr parent T3 np;
                if npp = None then Some T3 else fix_insert T3 new_node
              }
            }
      })"

text \<open>
  \<^verbatim>\<open>search\<close>: the result is the \<^verbatim>\<open>value\<close> attribute of the node found, or
  \<^verbatim>\<open>None\<close> at the sentinel.
\<close>

partial_function (option) search_helper :: "rbtree \<Rightarrow> ref \<Rightarrow> string \<Rightarrow> string option option" where
  "search_helper T n k =
     (if n = NIL then Some None
      else do {
        nk \<leftarrow> attr key T n;
        if Some k = nk then attr val T n
        else
          case nk of
            None \<Rightarrow> None
          | Some nk \<Rightarrow>
              if k < nk then do { l \<leftarrow> attr left T n; search_helper T l k }
              else do { r \<leftarrow> attr right T n; search_helper T r k }
      })"

definition search :: "rbtree \<Rightarrow> string \<Rightarrow> string option option" where
  "search T k = search_helper T (root T) k"

section \<open>The access counter, the heap of frequencies and the store of main.py\<close>

text \<open>
  The functions of \<^verbatim>\<open>hashlib\<close> and \<^verbatim>\<open>heapq\<close> that main.py calls are library code,
  not part of the repository. They are parameters of the model, collected in one record:
  the two digests, and \<^verbatim>\<open>heapify\<close>, \<^verbatim>\<open>heappush\<close> and \<^verbatim>\<open>heappop\<close> on lists of
  pairs \<^verbatim>\<open>(-count, short_url)\<close>. Python compares such pairs lexicographically, and
  strings character by character: the order of \<open>int \<times> string\<close> used here.
\<close>

type_synonym entry = "int \<times> string"

record library =
  hashlib_md5 :: digest
  hashlib_sha1 :: digest
  heapq_heapify :: "entry list \<Rightarrow> entry list"
  heapq_heappush :: "entry list \<Rightarrow> entry \<Rightarrow> entry list"
  heapq_heappop :: "entry list \<Rightarrow> entry \<times> entry list"



record store =
  url_map :: "string \<rightharpoonup> string"
  access_counter :: "string \<rightharpoonup> int"
  most_frequent :: "entry list"
  url_tree :: rbtree
  cuckoo_table1 :: table
  cuckoo_table2 :: table

definition init_store :: store where
  "init_store =
     \<lparr>url_map = Map.empty, access_counter = Map.empty, most_frequent = [],
      url_tree = RedBlackTree, cuckoo_table1 = empty_table, cuckoo_table2 = empty_table\<rparr>"

text \<open>Reading a \<^verbatim>\<open>Counter\<close>: a key that is not tracked counts 0.\<close>

definition count_of :: "(string \<rightharpoonup> int) \<Rightarrow> string \<Rightarrow> int" where
  "count_of c k = (case c k of None \<Rightarrow> 0 | Some n \<Rightarrow> n)"

text \<open>The \<^verbatim>\<open>enumerate\<close> loop of \<^verbatim>\<open>update_frequency\<close>: the first index whose url matches.\<close>

fun index_of :: "string \<Rightarrow> entry list \<Rightarrow> nat option" where
  "index_of short_url [] = None"
| "index_of short_url ((neg_count, url) # rest) =
     (if url = short_url then Some 0 else map_option Suc (index_of short_url rest))"

definition update_frequency :: "library \<Rightarrow> string \<Rightarrow> store \<Rightarrow> store" where
  "update_frequency L short_url s =
     (let c = (access_counter s)(short_url \<mapsto> count_of (access_counter s) short_url + 1);
          cnt = count_of c short_url
      in s\<lparr>access_counter := c,
            most_frequent :=
              (case index_of short_url (most_frequent s) of
                 Some i \<Rightarrow> heapq_heapify L ((most_frequent s)[i := (- cnt, short_url)])
               | None \<Rightarrow> heapq_heappush L (most_frequent s) (- cnt, short_url))\<rparr>)"

text \<open>
  The three writes of \<^verbatim>\<open>shorten_url\<close> (lines 301 to 307): the dictionary, the cuckoo
  tables (the result of \<^verbatim>\<open>cuckoo_insert\<close> is not looked at) and the tree. This is the
  \<open>put\<close> of the specification. \<^verbatim>\<open>shorten_url\<close> itself first completes the URL with a
  scheme; its key is \<^verbatim>\<open>hash_url(url)\<close>, which depends on the clock and is a
  parameter here.
\<close>

definition put :: "library \<Rightarrow> string \<Rightarrow> string \<Rightarrow> store \<Rightarrow> store option" where
  "put L short_hash url s =
     (let r = cuckoo_insert (hashlib_md5 L) (hashlib_sha1 L) short_hash url 100
                (cuckoo_table1 s, cuckoo_table2 s)
      in do {
        T \<leftarrow> insert_rb (url_tree s) short_hash url;
        Some (s\<lparr>url_map := (url_map s)(short_hash \<mapsto> url),
                cuckoo_table1 := fst (snd r), cuckoo_table2 := snd (snd r),
                url_tree := T\<rparr>)
      })"

definition startswith :: "string \<Rightarrow> string \<Rightarrow> bool" where
  "startswith s p \<longleftrightarrow> take (length p) s = p"

definition shorten_url :: "library \<Rightarrow> string \<Rightarrow> string \<Rightarrow> store \<Rightarrow> store option" where
  "shorten_url L short_hash url s =
     put L short_hash
       (if \<not> (startswith url ''http://'' \<or> startswith url ''https://'') then ''https://'' @ url
        else url) s"

text \<open>
  \<^verbatim>\<open>redirect_to_url\<close>, the \<open>get\<close> of the specification. \<^verbatim>\<open>not original_url\<close> is true
  of \<^verbatim>\<open>None\<close> and of the empty string. The result is the error raised or the URL
  returned, together with the store after the call.
\<close>

datatype error = HTTPException nat

definition falsy :: "string option \<Rightarrow> bool" where
  "falsy x \<longleftrightarrow> x = None \<or> x = Some []"

definition redirect_to_url :: "library \<Rightarrow> string \<Rightarrow> store \<Rightarrow> ((error + string) \<times> store) option" where
  "redirect_to_url L short_url s =
     (let original_url = url_map s short_url;
          original_url =
            (if falsy original_url
             then cuckoo_lookup (hashlib_md5 L) (hashlib_sha1 L) short_url
                    (cuckoo_table1 s, cuckoo_table2 s)
             else original_url)
      in do {
        original_url \<leftarrow> (if falsy original_url then search (url_tree s) short_url
                         else Some original_url);
        case original_url of
          None \<Rightarrow> Some (Inl (HTTPException 404), s)
        | Some u \<Rightarrow>
            if u = [] then Some (Inl (HTTPException 404), s)
            else Some (Inr u, update_frequency L short_url s)
      })"

text \<open>
  The loop of \<^verbatim>\<open>get_popular_urls\<close> (and of the index page) over a copy of the heap:
  \<open>n\<close> times, pop the least pair and report it if its url is in \<^verbatim>\<open>url_map\<close>.
\<close>

fun pop_entries ::
  "library \<Rightarrow> nat \<Rightarrow> entry list \<Rightarrow> (string \<rightharpoonup> string) \<Rightarrow> (string \<times> string \<times> int) list" where
  "pop_entries L 0 heap_copy m = []"
| "pop_entries L (Suc n) heap_copy m =
     (if heap_copy \<noteq> [] then
        (let p = heapq_heappop L heap_copy;
             neg_count = fst (fst p);
             short_url = snd (fst p)
         in (case m short_url of
               Some original_url \<Rightarrow> (short_url, original_url, - neg_count) # pop_entries L n (snd p) m
             | None \<Rightarrow> pop_entries L n (snd p) m))
      else pop_entries L n heap_copy m)"

definition popular_urls :: "library \<Rightarrow> nat \<Rightarrow> store \<Rightarrow> (string \<times> string \<times> int) list" where
  "popular_urls L limit s =
     (let heap_copy = most_frequent s
      in pop_entries L (min limit (length heap_copy)) heap_copy (url_map s))"

definition get_popular_urls :: "library \<Rightarrow> store \<Rightarrow> (string \<times> string \<times> int) list" where
  "get_popular_urls L s = popular_urls L 10 s"

text \<open>Sequences of requests, run from a given store; \<open>None\<close> if one of them fails to return.\<close>

datatype request = Put string string | Get string

fun step :: "library \<Rightarrow> store \<Rightarrow> request \<Rightarrow> store option" where
  "step L s (Put k v) = put L k v s"
| "step L s (Get k) = map_option snd (redirect_to_url L k s)"

fun run :: "library \<Rightarrow> store \<Rightarrow> request list \<Rightarrow> store option" where
  "run L s [] = Some s"
| "run L s (r # rs) = (case step L s r of None \<Rightarrow> None | Some s' \<Rightarrow> run L s' rs)"

subsection \<open>Digests of the keys used in the examples\<close>

text \<open>
  The examples below run the model on concrete keys. \<open>digest_table\<close> lists, for each of
  these keys, the integer value of its MD5 and of its SHA-1 hex digest
  (\<^verbatim>\<open>int(hashlib.md5(key.encode()).hexdigest(), 16)\<close> and the same with
  \<^verbatim>\<open>sha1\<close>); \<open>md5_sample\<close> and \<open>sha1_sample\<close> read the table and are 0 on
  every other key, which the examples never hash.
\<close>

definition digest_table :: "(string \<times> nat \<times> nat) list" where
  "digest_table =
    [(''0000000'', 55515685917483917098171717614559253015,
        445471063785129033879231817357094030284294558239),
     (''00003df'', 269634977493663175034791447956114250263,
        1387711045880591019182045107770188096002204584764),
     (''0000515'', 333358459366733862996236300253047314041,
        122205440667881492473216178379882956212550637333),
     (''0002682'', 232817421404265063591539882147226067577,
        235764644352184308768346736844889210472261833493),
     (''0004ffe'', 113797379345682331206644618483209862777,
        257124019357177754771899022317559615018116958997)]"

definition md5_sample :: digest where
  "md5_sample ky = (case map_of digest_table ky of Some (m, s) \<Rightarrow> m | None \<Rightarrow> 0)"

definition sha1_sample :: digest where
  "sha1_sample ky = (case map_of digest_table ky of Some (m, s) \<Rightarrow> s | None \<Rightarrow> 0)"

text \<open>
  A library for the examples: the sample digests, and \<^verbatim>\<open>heapq\<close> as a priority queue
  that keeps its list sorted (a sorted list is a heap).
\<close>

definition sample_library :: library where
  "sample_library =
     \<lparr>hashlib_md5 = md5_sample, hashlib_sha1 = sha1_sample,
      heapq_heapify = sort,
      heapq_heappush = (\<lambda>xs x. sort (xs @ [x])),
      heapq_heappop = (\<lambda>xs. (hd xs, sort (tl xs)))\<rparr>"

text \<open>
  The three keys \<open>0000515\<close>, \<open>0002682\<close> and \<open>0004ffe\<close> all hash to slot 633 of
  table 1 and slot 789 of table 2. With two of them stored, inserting the third runs
  through the whole budget.
\<close>

definition full_pair :: "table \<times> table" where
  "full_pair =
     snd (cuckoo_insert md5_sample sha1_sample ''0002682'' ''https://y.example'' 100
       (snd (cuckoo_insert md5_sample sha1_sample ''0000515'' ''https://x.example'' 100
          (empty_table, empty_table))))"

text \<open>The store after \<^verbatim>\<open>put\<close> of the key \<open>0000000\<close> with the value \<open>v\<close> into the initial store.\<close>

definition one_url :: "string \<Rightarrow> store" where
  "one_url v =
     \<lparr>url_map = [''0000000'' \<mapsto> v], access_counter = Map.empty, most_frequent = [],
      url_tree =
        \<lparr>heap = (heap RedBlackTree)
              (1 := \<lparr>key = Some ''0000000'', val = Some v, left = NIL, right = NIL,
                     parent = None, color = False\<rparr>),
         fresh = 2, root = Some 1\<rparr>,
      cuckoo_table1 = empty_table[535 := Some (''0000000'', v)],
      cuckoo_table2 = empty_table\<rparr>"

section \<open>The tree that a heap holds\<close>

text \<open>
  The properties of the linked structure are stated over the tree it represents.
  \<open>Fork a c l k v r\<close> is the node at address \<open>a\<close> with colour \<open>c\<close> (\<open>True\<close> is red),
  key \<open>k\<close>, value \<open>v\<close> and subtrees \<open>l\<close> and \<open>r\<close>; \<open>Tip\<close> is the sentinel.
\<close>

datatype tree = Tip | Fork nat bool tree string string tree

text \<open>
  A position inside a tree is a subtree together with the path from it up to the root: each
  \<open>Frame\<close> of the path is a node seen from one child (\<open>Lft\<close> or \<open>Rgt\<close>), with its
  address, colour, key, value and other subtree; \<open>plug\<close> puts the tree together again.
\<close>

datatype side = Lft | Rgt

datatype frame = Frame side nat bool string string tree

text \<open>The reference to the root node of a tree, and the addresses of its nodes, left to right.\<close>

fun ptr :: "tree \<Rightarrow> ref" where
  "ptr Tip = NIL"
| "ptr (Fork a c l k v r) = Some a"

fun addrs :: "tree \<Rightarrow> nat list" where
  "addrs Tip = []"
| "addrs (Fork a c l k v r) = addrs l @ a # addrs r"

text \<open>
  \<open>shaped h par t\<close>: in the heap \<open>h\<close> the fields of every node of \<open>t\<close> are those that
  \<open>t\<close> prescribes: key, value and colour, \<^verbatim>\<open>left\<close> and \<^verbatim>\<open>right\<close> referring to the
  roots of the subtrees (to the sentinel for \<open>Tip\<close>), and \<^verbatim>\<open>parent\<close> referring to the
  node above (\<open>par\<close> for the root of \<open>t\<close>). \<open>tree_of T t\<close>: the object \<open>T\<close> holds the tree
  \<open>t\<close>: its \<^verbatim>\<open>root\<close> refers to the root of \<open>t\<close>, whose parent is \<^verbatim>\<open>None\<close>; no address
  occurs twice; all nodes were allocated; the sentinel is black and has no links.
\<close>

fun shaped :: "(nat \<Rightarrow> node) \<Rightarrow> ref \<Rightarrow> tree \<Rightarrow> bool" where
  "shaped h par Tip = True"
| "shaped h par (Fork a c l k v r) =
     (a \<noteq> 0 \<and>
      h a = \<lparr>key = Some k, val = Some v, left = ptr l, right = ptr r, parent = par, color = c\<rparr> \<and>
      shaped h (Some a) l \<and> shaped h (Some a) r)"

definition tree_of :: "rbtree \<Rightarrow> tree \<Rightarrow> bool" where
  "tree_of T t \<longleftrightarrow>
     shaped (heap T) None t \<and> root T = ptr t \<and> distinct (addrs t) \<and>
     (\<forall>a \<in> set (addrs t). a < fresh T) \<and> 0 < fresh T \<and> heap T 0 = Node None None False"

fun plug :: "tree \<Rightarrow> frame list \<Rightarrow> tree" where
  "plug t [] = t"
| "plug t (Frame Lft a c k v s # fs) = plug (Fork a c t k v s) fs"
| "plug t (Frame Rgt a c k v s # fs) = plug (Fork a c s k v t) fs"

text \<open>
  The counterparts for paths: the node right above the position, the addresses on and
  beside the path, and \<open>ctx h c fs\<close>, which says that the heap holds the nodes of the path
  \<open>fs\<close> around a subtree whose root is referred to by \<open>c\<close>.
\<close>

fun ppar :: "frame list \<Rightarrow> ref" where
  "ppar [] = None"
| "ppar (Frame d a c k v s # fs) = Some a"

fun caddrs :: "frame list \<Rightarrow> nat list" where
  "caddrs [] = []"
| "caddrs (Frame d a c k v s # fs) = a # addrs s @ caddrs fs"

fun ctx :: "(nat \<Rightarrow> node) \<Rightarrow> ref \<Rightarrow> frame list \<Rightarrow> bool" where
  "ctx h c [] = True"
| "ctx h c (Frame d a col k v s # fs) =
     (a \<noteq> 0 \<and>
      h a = \<lparr>key = Some k, val = Some v,
             left = (if d = Lft then c else ptr s), right = (if d = Lft then ptr s else c),
             parent = ppar fs, color = col\<rparr> \<and>
      shaped h (Some a) s \<and> ctx h (Some a) fs)"

text \<open>
  A subtree hangs in a tree from a hole: a child field of a node, or the \<^verbatim>\<open>root\<close> field
  of the tree object. \<open>hangs T sl G\<close> says that the heap of \<open>T\<close> holds \<open>G\<close> below the hole
  \<open>sl\<close>; \<open>replaces T T' sl G S\<close> that \<open>T'\<close> differs from \<open>T\<close> in holding \<open>S\<close>, built from
  the same nodes, where \<open>T\<close> holds \<open>G\<close>, everything outside being untouched.
\<close>

type_synonym hole = "(nat \<times> side) option"

definition hangs :: "rbtree \<Rightarrow> hole \<Rightarrow> tree \<Rightarrow> bool" where
  "hangs T sl G \<longleftrightarrow>
     shaped (heap T) (map_option fst sl) G \<and> distinct (addrs G) \<and>
     heap T 0 = Node None None False \<and>
     (case sl of
        None \<Rightarrow> root T = ptr G
      | Some (gg, d) \<Rightarrow>
          gg \<noteq> 0 \<and> gg \<notin> set (addrs G) \<and>
          (d = Lft \<longrightarrow>
             left (heap T gg) = ptr G \<and> (\<forall>a \<in> set (addrs G). right (heap T gg) \<noteq> Some a)) \<and>
          (d = Rgt \<longrightarrow>
             right (heap T gg) = ptr G \<and> (\<forall>a \<in> set (addrs G). left (heap T gg) \<noteq> Some a)))"

definition replaces :: "rbtree \<Rightarrow> rbtree \<Rightarrow> hole \<Rightarrow> tree \<Rightarrow> tree \<Rightarrow> bool" where
  "replaces T T' sl G S \<longleftrightarrow>
     hangs T' sl S \<and> mset (addrs S) = mset (addrs G) \<and> fresh T' = fresh T \<and>
     (\<forall>b. b \<notin> set (addrs G) \<longrightarrow> (\<forall>d. sl \<noteq> Some (b, d)) \<longrightarrow> heap T' b = heap T b) \<and>
     (case sl of
        None \<Rightarrow> True
      | Some (gg, d) \<Rightarrow>
          root T' = root T \<and>
          (d = Lft \<longrightarrow> heap T' gg = (heap T gg)\<lparr>left := ptr S\<rparr>) \<and>
          (d = Rgt \<longrightarrow> heap T' gg = (heap T gg)\<lparr>right := ptr S\<rparr>))"

text \<open>The colour of the root of a tree; the sentinel is black.\<close>

fun red_of :: "tree \<Rightarrow> bool" where
  "red_of Tip = False"
| "red_of (Fork a c l k v r) = c"

text \<open>\<open>child_of a t\<close>: the node at address \<open>a\<close> is one of the two children of the root of \<open>t\<close>.\<close>

definition child_of :: "nat \<Rightarrow> tree \<Rightarrow> bool" where
  "child_of k t \<longleftrightarrow>
     (\<exists>a c l ky v r.
        t = Fork a c l ky v r \<and>
        ((\<exists>kc kl kk kv kr. l = Fork k kc kl kk kv kr) \<or>
         (\<exists>kc kl kk kv kr. r = Fork k kc kl kk kv kr)))"

text \<open>The hole from which the subtree at the end of a path hangs, and a tree with its root painted black.\<close>

fun hole_of :: "frame list \<Rightarrow> hole" where
  "hole_of [] = None"
| "hole_of (Frame d a c k v s # fs) = Some (a, d)"

fun paint_black :: "tree \<Rightarrow> tree" where
  "paint_black Tip = Tip"
| "paint_black (Fork a c l k v r) = Fork a False l k v r"

text \<open>
  What one pass through the loop of \<^verbatim>\<open>_fix_insert\<close> does to the tree, at the position of
  \<open>k\<close>: with a red uncle, parent and uncle become black, the grandparent red, and the
  position moves up to the grandparent; with a black uncle, the one or two rotations and
  the two colour changes of the source. \<open>afix\<close> repeats it while the parent is red and
  paints the root black at the end.
\<close>

fun astep :: "tree \<Rightarrow> frame list \<Rightarrow> tree \<times> frame list" where
  "astep t (Frame d p pc pk pv ps # Frame Rgt g gc gk gv U # fs) =
     (if red_of U then
        (Fork g True (paint_black U) gk gv (plug t [Frame d p False pk pv ps]), fs)
      else
        (case d of
           Rgt \<Rightarrow> (t, Frame Rgt p False pk pv (Fork g True U gk gv ps) # fs)
         | Lft \<Rightarrow>
             (case t of
                Fork k kc kl kk kv kr \<Rightarrow>
                  (Fork p pc kr pk pv ps, Frame Rgt k False kk kv (Fork g True U gk gv kl) # fs)
              | Tip \<Rightarrow> (t, fs))))"
| "astep t (Frame d p pc pk pv ps # Frame Lft g gc gk gv U # fs) =
     (if red_of U then
        (Fork g True (plug t [Frame d p False pk pv ps]) gk gv (paint_black U), fs)
      else
        (case d of
           Lft \<Rightarrow> (t, Frame Lft p False pk pv (Fork g True ps gk gv U) # fs)
         | Rgt \<Rightarrow>
             (case t of
                Fork k kc kl kk kv kr \<Rightarrow>
                  (Fork p pc ps pk pv kl, Frame Lft k False kk kv (Fork g True kr gk gv U) # fs)
              | Tip \<Rightarrow> (t, fs))))"
| "astep t fs = (t, fs)"

function afix :: "tree \<Rightarrow> frame list \<Rightarrow> tree" where
  "afix t [] = paint_black t"
| "afix t [f] = paint_black (plug t [f])"
| "afix t (Frame d p pc pk pv ps # f # fs) =
     (if pc then afix (fst (astep t (Frame d p pc pk pv ps # f # fs)))
                      (snd (astep t (Frame d p pc pk pv ps # f # fs)))
      else paint_black (plug t (Frame d p pc pk pv ps # f # fs)))"
  by pat_completeness auto

termination
proof (relation "measure (\<lambda>(t, fs). length fs)")
  fix t d p pc pk pv ps f fs
  have "length (snd (astep t (Frame d p pc pk pv ps # f # fs))) < Suc (Suc (length fs))"
    by (cases "(t, Frame d p pc pk pv ps # f # fs)" rule: astep.cases)
       (auto split: side.splits tree.splits)
  then show "((fst (astep t (Frame d p pc pk pv ps # f # fs)),
               snd (astep t (Frame d p pc pk pv ps # f # fs))),
              t, Frame d p pc pk pv ps # f # fs) \<in> measure (\<lambda>(t, fs). length fs)"
    by (simp add: case_prod_beta)
qed simp

text \<open>The colour of the node of a frame; \<open>black_top\<close>: the root at the upper end of a path is black.\<close>

fun frame_red :: "frame \<Rightarrow> bool" where
  "frame_red (Frame d a c k v s) = c"

definition black_top :: "frame list \<Rightarrow> bool" where
  "black_top fs \<longleftrightarrow> fs = [] \<or> \<not> frame_red (last fs)"

text \<open>
  The descent of \<^verbatim>\<open>insert\<close> on the tree: \<open>path_to k t fs\<close> ends at the node that holds
  \<open>k\<close> or at a \<open>Tip\<close>. \<open>ains a k v t\<close> is the tree after \<^verbatim>\<open>insert(k, v)\<close>, with \<open>a\<close> the
  address of the new node: the value is replaced where the key is found; otherwise a red
  node is hung in, painted black if it is the root, left as it is below the root, and handed
  to \<open>afix\<close> from the third level on.
\<close>

fun path_to :: "string \<Rightarrow> tree \<Rightarrow> frame list \<Rightarrow> tree \<times> frame list" where
  "path_to k Tip fs = (Tip, fs)"
| "path_to k (Fork a c l k' v r) fs =
     (if k < k' then path_to k l (Frame Lft a c k' v r # fs)
      else if k > k' then path_to k r (Frame Rgt a c k' v l # fs)
      else (Fork a c l k' v r, fs))"

definition ains :: "nat \<Rightarrow> string \<Rightarrow> string \<Rightarrow> tree \<Rightarrow> tree" where
  "ains a k v t =
     (case path_to k t [] of
        (Fork x c l k' v' r, fs) \<Rightarrow> plug (Fork x c l k' v r) fs
      | (Tip, fs) \<Rightarrow>
          (case fs of
             [] \<Rightarrow> Fork a False Tip k v Tip
           | [f] \<Rightarrow> plug (Fork a True Tip k v Tip) [f]
           | f # f' # fs' \<Rightarrow> afix (Fork a True Tip k v Tip) fs))"

text \<open>
  The red-black properties. \<open>no_red_red\<close>: no red node has a red child.
  \<open>black_paths t\<close> lists, for every path from the root of \<open>t\<close> to a sentinel position, the
  number of black nodes on it. \<open>bh\<close> counts them along the leftmost path, and \<open>invh\<close>
  says that at every node both subtrees give the same count. \<open>ctx_ok\<close> is the part of
  these properties that concerns the nodes on and beside a path.
\<close>

fun no_red_red :: "tree \<Rightarrow> bool" where
  "no_red_red Tip = True"
| "no_red_red (Fork a c l k v r) =
     ((c \<longrightarrow> \<not> red_of l \<and> \<not> red_of r) \<and> no_red_red l \<and> no_red_red r)"

fun black_paths :: "tree \<Rightarrow> nat list" where
  "black_paths Tip = [0]"
| "black_paths (Fork a c l k v r) =
     map (\<lambda>n. if c then n else Suc n) (black_paths l @ black_paths r)"

fun bh :: "tree \<Rightarrow> nat" where
  "bh Tip = 0"
| "bh (Fork a c l k v r) = (if c then bh l else Suc (bh l))"

fun invh :: "tree \<Rightarrow> bool" where
  "invh Tip = True"
| "invh (Fork a c l k v r) = (bh l = bh r \<and> invh l \<and> invh r)"

fun top_red :: "frame list \<Rightarrow> bool" where
  "top_red [] = False"
| "top_red (Frame d a c k v s # fs) = c"

fun ctx_ok :: "nat \<Rightarrow> frame list \<Rightarrow> bool" where
  "ctx_ok h [] = True"
| "ctx_ok h (Frame d a c k v s # fs) =
     (invh s \<and> no_red_red s \<and> bh s = h \<and> (c \<longrightarrow> \<not> red_of s \<and> \<not> top_red fs) \<and>
      ctx_ok (if c then h else Suc h) fs)"

text \<open>A red-black tree: black root, no red node with a red child, equal black counts.\<close>

definition rbt :: "tree \<Rightarrow> bool" where
  "rbt t \<longleftrightarrow> \<not> red_of t \<and> no_red_red t \<and> invh t"


text \<open>
  The pairs of a tree from left to right, as \<^verbatim>\<open>inorder_traversal\<close> lists them, and the
  pairs to the left and to the right of a position. \<open>bst\<close>: the keys increase strictly
  from left to right.
\<close>

fun inorder :: "tree \<Rightarrow> (string \<times> string) list" where
  "inorder Tip = []"
| "inorder (Fork a c l k v r) = inorder l @ (k, v) # inorder r"

fun entries_before :: "frame list \<Rightarrow> (string \<times> string) list" where
  "entries_before [] = []"
| "entries_before (Frame Lft a c k v r # fs) = entries_before fs"
| "entries_before (Frame Rgt a c k v l # fs) = entries_before fs @ inorder l @ [(k, v)]"

fun entries_after :: "frame list \<Rightarrow> (string \<times> string) list" where
  "entries_after [] = []"
| "entries_after (Frame Lft a c k v r # fs) = (k, v) # inorder r @ entries_after fs"
| "entries_after (Frame Rgt a c k v l # fs) = entries_after fs"

definition bst :: "tree \<Rightarrow> bool" where
  "bst t \<longleftrightarrow> sorted_wrt (<) (map fst (inorder t))"


text \<open>The URL that \<^verbatim>\<open>shorten_url\<close> stores (lines 294 and 295 of main.py).\<close>

definition with_scheme :: "string \<Rightarrow> string" where
  "with_scheme url =
     (if \<not> (startswith url ''http://'' \<or> startswith url ''https://'') then ''https://'' @ url
      else url)"

text \<open>
  What holds of every store that a sequence of requests builds: the tree object holds a
  red-black search tree, and its pairs are those of \<^verbatim>\<open>url_map\<close>.
\<close>

definition store_inv :: "store \<Rightarrow> bool" where
  "store_inv s \<longleftrightarrow>
     (\<exists>t. tree_of (url_tree s) t \<and> rbt t \<and> bst t \<and> map_of (inorder t) = url_map s)"





section \<open>Properties of the cuckoo tables\<close>

lemma cuckoo_hash1_in_range: "cuckoo_hash1 md5 ky < CUCKOO_SIZE"
  by (simp add: cuckoo_hash1_def CUCKOO_SIZE_def)

lemma cuckoo_hash2_in_range: "cuckoo_hash2 sha1 ky < CUCKOO_SIZE"
  by (simp add: cuckoo_hash2_def CUCKOO_SIZE_def)

lemma cuckoo_loop_numeral:
  "cuckoo_loop md5 sha1 (numeral k) ky v t1 t2 =
     (let pos1 = cuckoo_hash1 md5 ky in
      (case t1 ! pos1 of
        None \<Rightarrow> Placed (t1[pos1 := Some (ky, v)]) t2
      | Some (key1, v1) \<Rightarrow>
          (if key1 = ky then Placed (t1[pos1 := Some (ky, v)]) t2
           else
            (let t1' = t1[pos1 := Some (ky, v)];
                 pos2 = cuckoo_hash2 sha1 key1 in
             (case t2 ! pos2 of
               None \<Rightarrow> Placed t1' (t2[pos2 := Some (key1, v1)])
             | Some (key2, v2) \<Rightarrow>
                 (if key2 = key1 then Placed t1' (t2[pos2 := Some (key1, v1)])
                  else cuckoo_loop md5 sha1 (pred_numeral k) key2 v2 t1'
                         (t2[pos2 := Some (key1, v1)])))))))"
  by (simp add: numeral_eq_Suc)


lemma stored_keys_update:
  "i < length t \<Longrightarrow>
   add_mset k (mset (stored_keys t)) =
     mset (stored_keys (t[i := Some (k, v)])) + (case t ! i of None \<Rightarrow> {#} | Some (k1, v1) \<Rightarrow> {#k1#})"
proof (induction t arbitrary: i rule: stored_keys.induct)
  case 1
  then show ?case by simp
next
  case (2 t)
  then show ?case by (cases i) auto
next
  case (3 k' v' t)
  then show ?case by (cases i) auto
qed

lemma cuckoo_loop_keys:
  "length t1 = CUCKOO_SIZE \<Longrightarrow> length t2 = CUCKOO_SIZE \<Longrightarrow>
   cuckoo_loop md5 sha1 n ky v t1 t2 = Exhausted k' v' t1' t2' \<Longrightarrow>
   length t1' = CUCKOO_SIZE \<and> length t2' = CUCKOO_SIZE \<and>
   add_mset k' (mset (stored_keys t1') + mset (stored_keys t2')) =
     add_mset ky (mset (stored_keys t1) + mset (stored_keys t2))"
proof (induction n arbitrary: ky v t1 t2)
  case 0
  then show ?case by simp
next
  case (Suc n)
  let ?p1 = "cuckoo_hash1 md5 ky"
  have p1: "?p1 < length t1" using Suc.prems(1) by (simp add: cuckoo_hash1_in_range)
  from Suc.prems(3) obtain key1 v1 where s1: "t1 ! ?p1 = Some (key1, v1)" and ne1: "key1 \<noteq> ky"
    by (auto simp: Let_def split: option.splits if_splits)
  let ?t1 = "t1[?p1 := Some (ky, v)]"
  let ?p2 = "cuckoo_hash2 sha1 key1"
  have p2: "?p2 < length t2" using Suc.prems(2) by (simp add: cuckoo_hash2_in_range)
  from Suc.prems(3) s1 ne1 obtain key2 v2 where s2: "t2 ! ?p2 = Some (key2, v2)" and ne2: "key2 \<noteq> key1"
    by (auto simp: Let_def split: option.splits if_splits)
  let ?t2 = "t2[?p2 := Some (key1, v1)]"
  from Suc.prems(3) s1 ne1 s2 ne2
  have rec: "cuckoo_loop md5 sha1 n key2 v2 ?t1 ?t2 = Exhausted k' v' t1' t2'"
    by (simp add: Let_def)
  have "length ?t1 = CUCKOO_SIZE" "length ?t2 = CUCKOO_SIZE"
    using Suc.prems by simp_all
  from Suc.IH [OF this rec]
  have IH: "length t1' = CUCKOO_SIZE" "length t2' = CUCKOO_SIZE"
    "add_mset k' (mset (stored_keys t1') + mset (stored_keys t2')) =
       add_mset key2 (mset (stored_keys ?t1) + mset (stored_keys ?t2))"
    by simp_all
  have u1: "add_mset ky (mset (stored_keys t1)) = mset (stored_keys ?t1) + {#key1#}"
    using stored_keys_update [OF p1, of ky v] s1 by simp
  have u2: "add_mset key1 (mset (stored_keys t2)) = mset (stored_keys ?t2) + {#key2#}"
    using stored_keys_update [OF p2, of key1 v1] s2 by simp
  have "add_mset key2 (mset (stored_keys ?t1) + mset (stored_keys ?t2)) =
        mset (stored_keys ?t1) + (mset (stored_keys ?t2) + {#key2#})"
    by simp
  also have "\<dots> = mset (stored_keys ?t1) + add_mset key1 (mset (stored_keys t2))"
    using u2 by simp
  also have "\<dots> = (mset (stored_keys ?t1) + {#key1#}) + mset (stored_keys t2)"
    by simp
  also have "\<dots> = add_mset ky (mset (stored_keys t1)) + mset (stored_keys t2)"
    using u1 by simp
  finally show ?case using IH by simp
qed


text \<open>Sample runs use the default budget of \<^verbatim>\<open>cuckoo_insert\<close>, 100 iterations.\<close>

lemmas cuckoo_eval =
  cuckoo_loop_numeral cuckoo_insert_def cuckoo_lookup_def
  cuckoo_hash1_def cuckoo_hash2_def md5_sample_def sha1_sample_def digest_table_def
  CUCKOO_SIZE_def empty_table_def Let_def

text \<open>
  Claim C3 (every key of the cuckoo view occupies exactly one slot, and re-inserting an
  existing key does not duplicate it) does not hold of \<^verbatim>\<open>cuckoo_insert\<close>: the
  in-place overwrite looks at table 1 only. The keys \<open>0000000\<close> and \<open>00003df\<close> share
  slot 535 of table 1. Inserting the first, then the second, moves the first to slot 543
  of table 2; inserting the first again, with a new value, puts it into slot 535 of table 1
  and leaves its old copy in table 2: the key then occupies both of its slots, with two
  different values.
\<close>

theorem cuckoo_reinsert_duplicates_key:
  "(let tt1 = snd (cuckoo_insert md5_sample sha1_sample ''0000000'' ''https://a.example/old'' 100
                    (empty_table, empty_table));
        tt2 = snd (cuckoo_insert md5_sample sha1_sample ''00003df'' ''https://b.example'' 100 tt1);
        r = cuckoo_insert md5_sample sha1_sample ''0000000'' ''https://a.example/new'' 100 tt2
    in fst r \<and>
       cuckoo_hash1 md5_sample ''0000000'' = 535 \<and>
       cuckoo_hash2 sha1_sample ''0000000'' = 543 \<and>
       fst (snd r) ! 535 = Some (''0000000'', ''https://a.example/new'') \<and>
       snd (snd r) ! 543 = Some (''0000000'', ''https://a.example/old''))"
  by (simp add: cuckoo_eval)

text \<open>
  Claim C4, as amended: when the budget of 100 iterations is used up, \<^verbatim>\<open>cuckoo_insert\<close>
  returns \<^verbatim>\<open>False\<close>, both tables keep their size, and, provided that no key was stored
  twice before the call and the inserted key was not stored at all, the key of the pair
  displaced last is stored in neither table afterwards.
\<close>

theorem cuckoo_exhausted_drops_pair:
  assumes "length t1 = CUCKOO_SIZE" and "length t2 = CUCKOO_SIZE"
    and "distinct (stored_keys t1 @ stored_keys t2)"
    and "ky \<notin> set (stored_keys t1 @ stored_keys t2)"
    and "cuckoo_loop md5 sha1 100 ky v t1 t2 = Exhausted k' v' t1' t2'"
  shows "cuckoo_insert md5 sha1 ky v 100 (t1, t2) = (False, t1', t2') \<and>
         length t1' = CUCKOO_SIZE \<and> length t2' = CUCKOO_SIZE \<and>
         k' \<notin> set (stored_keys t1' @ stored_keys t2')"
proof -
  from cuckoo_loop_keys [OF assms(1,2,5)]
  have len: "length t1' = CUCKOO_SIZE" "length t2' = CUCKOO_SIZE"
    and eq: "mset (k' # stored_keys t1' @ stored_keys t2') = mset (ky # stored_keys t1 @ stored_keys t2)"
    by simp_all
  have "distinct (ky # stored_keys t1 @ stored_keys t2)"
    using assms(3,4) by simp
  with eq have "distinct (k' # stored_keys t1' @ stored_keys t2')"
    by (metis mset_eq_imp_distinct_iff)
  then have "k' \<notin> set (stored_keys t1' @ stored_keys t2')" by simp
  with len assms(5) show ?thesis by (simp add: cuckoo_insert_def)
qed


lemma full_pair_eq:
  "full_pair =
     (empty_table[633 := Some (''0002682'', ''https://y.example'')],
      empty_table[789 := Some (''0000515'', ''https://x.example'')])"
  by (simp add: full_pair_def cuckoo_eval)

lemma full_pair_loop:
  "cuckoo_loop md5_sample sha1_sample 100 ''0004ffe'' ''https://z.example'' (fst full_pair) (snd full_pair) =
     Exhausted ''0000515'' ''https://x.example''
       (empty_table[633 := Some (''0004ffe'', ''https://z.example'')])
       (empty_table[789 := Some (''0002682'', ''https://y.example'')])"
  by (simp add: full_pair_eq) (simp add: cuckoo_eval)

theorem cuckoo_exhausted_drops_pair_witness:
  "cuckoo_insert md5_sample sha1_sample ''0004ffe'' ''https://z.example'' 100 full_pair =
     (False, empty_table[633 := Some (''0004ffe'', ''https://z.example'')],
             empty_table[789 := Some (''0002682'', ''https://y.example'')]) \<and>
   ''0000515'' \<notin> set (stored_keys (empty_table[633 := Some (''0004ffe'', ''https://z.example'')]) @
                        stored_keys (empty_table[789 := Some (''0002682'', ''https://y.example'')]))"
proof -
  have l1: "length (fst full_pair) = CUCKOO_SIZE" and l2: "length (snd full_pair) = CUCKOO_SIZE"
    by (simp_all add: full_pair_eq empty_table_def)
  have sk1: "stored_keys (fst full_pair) = [''0002682'']"
    and sk2: "stored_keys (snd full_pair) = [''0000515'']"
    by (simp_all add: full_pair_eq) (code_simp+)
  have d: "distinct (stored_keys (fst full_pair) @ stored_keys (snd full_pair))"
    by (simp add: sk1 sk2)
  have f: "''0004ffe'' \<notin> set (stored_keys (fst full_pair) @ stored_keys (snd full_pair))"
    by (simp add: sk1 sk2)
  from cuckoo_exhausted_drops_pair [OF l1 l2 d f full_pair_loop]
  show ?thesis by simp
qed

section \<open>Properties of the store\<close>

lemma search_empty: "search RedBlackTree k = Some None"
  unfolding search_def
  by (subst search_helper.simps) (simp add: RedBlackTree_def)

lemma insert_rb_empty:
  "insert_rb RedBlackTree k v =
     Some \<lparr>heap = (heap RedBlackTree)
              (1 := \<lparr>key = Some k, val = Some v, left = NIL, right = NIL, parent = None, color = False\<rparr>),
           fresh = 2, root = Some 1\<rparr>"
proof -
  have d: "\<And>T. root T = NIL \<Longrightarrow> descend T k None (root T) = Some (Inr None)"
    by (subst descend.simps) simp
  show ?thesis
    unfolding insert_rb_def Let_def
    by (subst d) (simp_all add: RedBlackTree_def assign_def attr_def Node_def numeral_2_eq_2)
qed

lemma put_url_map: "put L k v s = Some s' \<Longrightarrow> url_map s' = (url_map s)(k \<mapsto> v)"
  by (auto simp: put_def Let_def split: bind_splits)

lemma put_counter: "put L k v s = Some s' \<Longrightarrow> access_counter s' = access_counter s"
  by (auto simp: put_def Let_def split: bind_splits)

lemma get_cases:
  "redirect_to_url L k s = Some (r, s') \<Longrightarrow>
     (\<exists>e. r = Inl e \<and> s' = s) \<or> (\<exists>u. r = Inr u \<and> s' = update_frequency L k s)"
  by (auto simp: redirect_to_url_def Let_def split: bind_splits option.splits if_splits)

lemma update_frequency_counter:
  "access_counter (update_frequency L k s) = (access_counter s)(k \<mapsto> count_of (access_counter s) k + 1)"
  by (simp add: update_frequency_def Let_def)

lemma update_frequency_url_map: "url_map (update_frequency L k s) = url_map s"
  by (simp add: update_frequency_def Let_def)

lemma step_counter_mono:
  "step L s r = Some s' \<Longrightarrow> count_of (access_counter s) k \<le> count_of (access_counter s') k"
proof (cases r)
  case (Put k' v)
  then show "step L s r = Some s' \<Longrightarrow> ?thesis" by (auto dest: put_counter)
next
  case (Get k')
  assume "step L s r = Some s'"
  with Get obtain res where "redirect_to_url L k' s = Some (res, s')" by auto
  from get_cases [OF this] show ?thesis
    by (auto simp: update_frequency_counter count_of_def)
qed

lemma run_counter_mono:
  "run L s rs = Some s' \<Longrightarrow> count_of (access_counter s) k \<le> count_of (access_counter s') k"
proof (induction rs arbitrary: s)
  case Nil
  then show ?case by simp
next
  case (Cons r rs)
  then obtain s1 where s1: "step L s r = Some s1" and rest: "run L s1 rs = Some s'"
    by (auto split: option.splits)
  from step_counter_mono [OF s1] Cons.IH [OF rest] show ?case by (rule order_trans)
qed

text \<open>
  Claim C6: a \<open>get\<close> that succeeds sets the count of its key to the old count plus one
  (to 1 for a key that was not tracked) and changes no other count; a \<open>get\<close> that
  misses leaves the whole store as it was; so over any sequence of requests no count ever
  goes down.
\<close>

theorem get_counts_accesses:
  "(redirect_to_url L k s = Some (Inr u, s') \<longrightarrow>
      access_counter s' k = Some (count_of (access_counter s) k + 1) \<and>
      (\<forall>k'. k' \<noteq> k \<longrightarrow> access_counter s' k' = access_counter s k')) \<and>
   (redirect_to_url L k s = Some (Inl e, s') \<longrightarrow> s' = s) \<and>
   (run L s rs = Some s'' \<longrightarrow> count_of (access_counter s) k \<le> count_of (access_counter s'') k)"
  using get_cases [of L k s "Inr u" s'] get_cases [of L k s "Inl e" s'] run_counter_mono [of L s rs s'' k]
  by (auto simp: update_frequency_counter)

text \<open>
  Claim C10: if the value stored for a key is the empty string (in the dictionary, and in
  the cuckoo tables and the tree as far as they hold the key), then the lookup reports
  HTTP 404 and leaves the store unchanged: each stage takes the empty string for a miss.
\<close>

theorem empty_value_not_found:
  assumes "url_map s k = Some []"
    and "falsy (cuckoo_lookup (hashlib_md5 L) (hashlib_sha1 L) k (cuckoo_table1 s, cuckoo_table2 s))"
    and "search (url_tree s) k = Some r" and "falsy r"
  shows "redirect_to_url L k s = Some (Inl (HTTPException 404), s)"
  using assms by (auto simp: redirect_to_url_def Let_def falsy_def)

lemma step_url_map_other:
  "step L s r = Some s' \<Longrightarrow> \<forall>v. r \<noteq> Put k v \<Longrightarrow> url_map s' k = url_map s k"
proof (cases r)
  case (Put k' v)
  then show "step L s r = Some s' \<Longrightarrow> \<forall>v. r \<noteq> Put k v \<Longrightarrow> ?thesis"
    by (auto dest!: put_url_map)
next
  case (Get k')
  assume "step L s r = Some s'"
  with Get obtain res where "redirect_to_url L k' s = Some (res, s')" by auto
  from get_cases [OF this] show ?thesis
    by (auto simp: update_frequency_url_map)
qed

lemma run_url_map_other:
  "run L s rs = Some s' \<Longrightarrow> \<forall>v. Put k v \<notin> set rs \<Longrightarrow> url_map s' k = url_map s k"
proof (induction rs arbitrary: s)
  case Nil
  then show ?case by simp
next
  case (Cons r rs)
  then obtain s1 where s1: "step L s r = Some s1" and rest: "run L s1 rs = Some s'"
    by (auto split: option.splits)
  from Cons.prems(2) have a: "\<forall>v. r \<noteq> Put k v" and b: "\<forall>v. Put k v \<notin> set rs" by auto
  from step_url_map_other [OF s1 a] Cons.IH [OF rest b] show ?case by simp
qed

lemma get_of_nonempty:
  "url_map s k = Some v \<Longrightarrow> v \<noteq> [] \<Longrightarrow>
   redirect_to_url L k s = Some (Inr v, update_frequency L k s)"
  by (simp add: redirect_to_url_def Let_def falsy_def)

text \<open>
  The three writes followed by a lookup: a value other than the empty string is returned,
  also after later requests that do not write the key again.
\<close>

lemma put_then_get_nonempty:
  assumes "put L k v s = Some s1" and "v \<noteq> []"
    and "run L s1 rs = Some s2" and "\<forall>v'. Put k v' \<notin> set rs"
  shows "redirect_to_url L k s2 = Some (Inr v, update_frequency L k s2) \<and>
         (\<forall>v2 s3. v2 \<noteq> [] \<and> put L k v2 s2 = Some s3 \<longrightarrow>
            redirect_to_url L k s3 = Some (Inr v2, update_frequency L k s3))"
proof -
  from put_url_map [OF assms(1)] have "url_map s1 k = Some v" by simp
  with run_url_map_other [OF assms(3,4)] have "url_map s2 k = Some v" by simp
  then have a: "redirect_to_url L k s2 = Some (Inr v, update_frequency L k s2)"
    using assms(2) by (rule get_of_nonempty)
  have "redirect_to_url L k s3 = Some (Inr v2, update_frequency L k s3)"
    if "v2 \<noteq> []" and "put L k v2 s2 = Some s3" for v2 s3
    using put_url_map [OF that(2)] that(1) by (intro get_of_nonempty) simp_all
  with a show ?thesis by blast
qed

lemma put_init_store: "put sample_library ''0000000'' v init_store = Some (one_url v)"
  by (simp add: put_def init_store_def insert_rb_empty one_url_def sample_library_def)
     (simp add: cuckoo_eval)

lemma get_init_store:
  "redirect_to_url sample_library ''0000000'' init_store = Some (Inl (HTTPException 404), init_store)"
  by (simp add: redirect_to_url_def init_store_def search_empty falsy_def sample_library_def cuckoo_eval)

lemma get_one_url:
  "redirect_to_url sample_library ''0000000'' (one_url ''https://a.example'') =
     Some (Inr ''https://a.example'', update_frequency sample_library ''0000000'' (one_url ''https://a.example''))"
  by (rule get_of_nonempty) (simp_all add: one_url_def)

lemma search_one_url: "search (url_tree (one_url v)) ''0000000'' = Some (Some v)"
  unfolding search_def
  by (subst search_helper.simps) (simp add: one_url_def NIL_def attr_def)

lemma uf1: "access_counter (update_frequency sample_library ''0000000'' (one_url ''https://a.example'')) ''0000000'' = Some 1"
  by (simp add: update_frequency_def one_url_def count_of_def)

lemma uf2: "most_frequent (update_frequency sample_library ''0000000'' (update_frequency sample_library ''0000000'' (one_url ''https://a.example''))) = [(-2, ''0000000'')]"
  by (simp add: update_frequency_def one_url_def count_of_def sample_library_def)


lemma search_one_url_miss: "search (url_tree (one_url v)) ''0000515'' = Some None"
  unfolding search_def
  apply (subst search_helper.simps)
  apply (simp add: one_url_def NIL_def attr_def)
  apply (subst search_helper.simps)
  apply (simp add: NIL_def)
  done

lemma get_all_falsy:
  assumes "falsy (url_map s k)"
    and "falsy (cuckoo_lookup (hashlib_md5 L) (hashlib_sha1 L) k (cuckoo_table1 s, cuckoo_table2 s))"
    and "search (url_tree s) k = Some r" and "falsy r"
  shows "redirect_to_url L k s = Some (Inl (HTTPException 404), s)"
  using assms by (auto simp: redirect_to_url_def Let_def falsy_def)

lemma get_one_url_miss:
  "redirect_to_url sample_library ''0000515'' (one_url v) = Some (Inl (HTTPException 404), one_url v)"
proof (rule get_all_falsy [OF _ _ search_one_url_miss])
  show "falsy (url_map (one_url v) ''0000515'')"
    by (simp add: one_url_def falsy_def)
  show "falsy (cuckoo_lookup (hashlib_md5 sample_library) (hashlib_sha1 sample_library) ''0000515''
          (cuckoo_table1 (one_url v), cuckoo_table2 (one_url v)))"
    by (simp add: one_url_def sample_library_def falsy_def cuckoo_eval)
  show "falsy None"
    by (simp add: falsy_def)
qed

lemma one_url_empty_lookup:
  "cuckoo_lookup (hashlib_md5 sample_library) (hashlib_sha1 sample_library) ''0000000''
     (cuckoo_table1 (one_url []), cuckoo_table2 (one_url [])) = Some []"
  by (simp add: one_url_def sample_library_def cuckoo_eval)

theorem empty_value_not_found_witness:
  "url_map (one_url []) ''0000000'' = Some [] \<and>
   redirect_to_url sample_library ''0000000'' (one_url []) = Some (Inl (HTTPException 404), one_url [])"
proof -
  have a: "url_map (one_url []) ''0000000'' = Some []"
    by (simp add: one_url_def)
  have b: "falsy (cuckoo_lookup (hashlib_md5 sample_library) (hashlib_sha1 sample_library) ''0000000''
             (cuckoo_table1 (one_url []), cuckoo_table2 (one_url [])))"
    by (simp add: one_url_empty_lookup falsy_def)
  have c: "search (url_tree (one_url [])) ''0000000'' = Some (Some [])"
    by (rule search_one_url)
  have d: "falsy (Some [])"
    by (simp add: falsy_def)
  from empty_value_not_found [OF a b c d] a show ?thesis by simp
qed

theorem get_counts_accesses_witness:
  "redirect_to_url sample_library ''0000000'' (one_url ''https://a.example'') =
     Some (Inr ''https://a.example'',
           update_frequency sample_library ''0000000'' (one_url ''https://a.example'')) \<and>
   access_counter (one_url ''https://a.example'') ''0000000'' = None \<and>
   access_counter (update_frequency sample_library ''0000000'' (one_url ''https://a.example''))
     ''0000000'' = Some 1 \<and>
   redirect_to_url sample_library ''0000515'' (one_url ''https://a.example'') =
     Some (Inl (HTTPException 404), one_url ''https://a.example'') \<and>
   count_of (access_counter (one_url ''https://a.example'')) ''0000000''
     \<le> count_of (access_counter
           (update_frequency sample_library ''0000000'' (one_url ''https://a.example''))) ''0000000''"
proof -
  let ?s = "one_url ''https://a.example''"
  let ?s' = "update_frequency sample_library ''0000000'' ?s"
  have hit: "redirect_to_url sample_library ''0000000'' ?s = Some (Inr ''https://a.example'', ?s')"
    by (rule get_one_url)
  have miss: "redirect_to_url sample_library ''0000515'' ?s = Some (Inl (HTTPException 404), ?s)"
    by (rule get_one_url_miss)
  have r: "run sample_library ?s [Get ''0000515'', Get ''0000000''] = Some ?s'"
    by (simp add: get_one_url_miss get_one_url)
  have c0: "access_counter ?s ''0000000'' = None"
    by (simp add: one_url_def)
  from get_counts_accesses [of sample_library "''0000000''" ?s "''https://a.example''" ?s'
      "HTTPException 404" "[Get ''0000515'', Get ''0000000'']" ?s']
    get_counts_accesses [of sample_library "''0000515''" ?s "''https://a.example''" ?s
      "HTTPException 404" "[]" ?s]
    hit miss r c0
  show ?thesis by (simp add: count_of_def)
qed

lemma shaped_plug:
  "shaped h None (plug t fs) \<longleftrightarrow> shaped h (ppar fs) t \<and> ctx h (ptr t) fs"
proof (induction fs arbitrary: t)
  case Nil
  then show ?case by simp
next
  case (Cons f fs)
  obtain d a c k v s where f: "f = Frame d a c k v s" by (cases f)
  show ?case by (cases d) (auto simp: f Cons.IH)
qed

lemma mset_addrs_plug: "mset (addrs (plug t fs)) = mset (addrs t) + mset (caddrs fs)"
proof (induction fs arbitrary: t)
  case Nil
  then show ?case by simp
next
  case (Cons f fs)
  obtain d a c k v s where f: "f = Frame d a c k v s" by (cases f)
  show ?case by (cases d) (simp_all add: f Cons.IH)
qed

lemma set_addrs_plug: "set (addrs (plug t fs)) = set (addrs t) \<union> set (caddrs fs)"
  using mset_addrs_plug [of t fs] by (metis set_mset_mset set_mset_union)

lemma distinct_addrs_plug: "distinct (addrs (plug t fs)) \<longleftrightarrow> distinct (addrs t @ caddrs fs)"
  using mset_addrs_plug [of t fs] by (metis mset_append mset_eq_imp_distinct_iff)

lemma ptr_plug: "fs \<noteq> [] \<Longrightarrow> ptr (plug t fs) = ptr (plug t' fs)"
proof (induction fs arbitrary: t t')
  case Nil
  then show ?case by simp
next
  case (Cons f fs)
  obtain d a c k v s where f: "f = Frame d a c k v s" by (cases f)
  show ?case
  proof (cases "fs = []")
    case True
    then show ?thesis by (cases d) (simp_all add: f)
  next
    case False
    from Cons.IH [OF False] show ?thesis by (cases d) (simp_all add: f)
  qed
qed

lemma shaped_upd_other:
  "a \<notin> set (addrs t) \<Longrightarrow> shaped (h(a := n)) par t = shaped h par t"
  by (induction t arbitrary: par) auto

lemma shaped_cong:
  "\<forall>a \<in> set (addrs t). h' a = h a \<Longrightarrow> shaped h' par t = shaped h par t"
  by (induction t arbitrary: par) auto

lemma shaped_transfer:
  "shaped h par t \<Longrightarrow> \<forall>a \<in> set (addrs t). h' a = h a \<Longrightarrow> shaped h' par t"
  using shaped_cong [of t h' h par] by simp

lemma ctx_cong:
  "\<forall>a \<in> set (caddrs fs). h' a = h a \<Longrightarrow> ctx h' c fs = ctx h c fs"
proof (induction fs arbitrary: c)
  case Nil
  then show ?case by simp
next
  case (Cons f fs)
  obtain d a col k v s where f: "f = Frame d a col k v s" by (cases f)
  from Cons.prems have "shaped h' (Some a) s = shaped h (Some a) s"
    by (intro shaped_cong) (simp add: f)
  moreover from Cons.prems have "ctx h' (Some a) fs = ctx h (Some a) fs"
    by (intro Cons.IH) (simp add: f)
  moreover from Cons.prems have "h' a = h a" by (simp add: f)
  ultimately show ?case by (simp add: f)
qed

lemma ctx_transfer:
  "ctx h c fs \<Longrightarrow> \<forall>a \<in> set (caddrs fs). h' a = h a \<Longrightarrow> ctx h' c fs"
  using ctx_cong [of fs h' h c] by simp

lemma left_rotate_heap:
  assumes xr: "right (heap T x) = Some y" and yl: "left (heap T y) = yl" and xy: "x \<noteq> y"
    and b: "yl = NIL \<or> (\<exists>b. yl = Some b \<and> b \<noteq> x \<and> b \<noteq> y \<and> b \<noteq> 0)"
    and xp: "parent (heap T x) = xp"
    and gg: "xp = None \<or> (\<exists>gg. xp = Some gg \<and> gg \<noteq> x \<and> gg \<noteq> y \<and> Some gg \<noteq> yl)"
  shows "left_rotate T (Some x) =
     Some (T\<lparr>heap := (\<lambda>a.
                 if a = x then (heap T x)\<lparr>right := yl, parent := Some y\<rparr>
                 else if a = y then (heap T y)\<lparr>parent := xp, left := Some x\<rparr>
                 else if Some a = yl \<and> yl \<noteq> NIL then (heap T a)\<lparr>parent := Some x\<rparr>
                 else if Some a = xp then
                   (if left (heap T a) = Some x then (heap T a)\<lparr>left := Some y\<rparr>
                    else (heap T a)\<lparr>right := Some y\<rparr>)
                 else heap T a),
             root := (if xp = None then Some y else root T)\<rparr>)"
proof -
  consider (nil_none) "yl = NIL" "xp = None"
    | (nil_some) gg where "yl = NIL" "xp = Some gg" "gg \<noteq> x" "gg \<noteq> y" "Some gg \<noteq> yl"
    | (node_none) b where "yl = Some b" "b \<noteq> x" "b \<noteq> y" "b \<noteq> 0" "xp = None"
    | (node_some) b gg where "yl = Some b" "b \<noteq> x" "b \<noteq> y" "b \<noteq> 0"
        "xp = Some gg" "gg \<noteq> x" "gg \<noteq> y" "gg \<noteq> b"
    using b gg by (auto simp: NIL_def)
  then show ?thesis
  proof cases
    case nil_none
    with xr yl xy xp show ?thesis
      by (auto simp: left_rotate_def attr_def assign_def fun_eq_iff NIL_def intro!: rbtree.equality)
  next
    case nil_some
    with xr yl xy xp show ?thesis
      by (auto simp: left_rotate_def attr_def assign_def fun_eq_iff NIL_def intro!: rbtree.equality)
  next
    case node_none
    with xr yl xy xp show ?thesis
      by (auto simp: left_rotate_def attr_def assign_def fun_eq_iff NIL_def intro!: rbtree.equality)
  next
    case node_some
    with xr yl xy xp show ?thesis
      by (auto simp: left_rotate_def attr_def assign_def fun_eq_iff NIL_def intro!: rbtree.equality)
  qed
qed

lemma right_rotate_heap:
  assumes xr: "left (heap T x) = Some y" and yr: "right (heap T y) = yr" and xy: "x \<noteq> y"
    and b: "yr = NIL \<or> (\<exists>b. yr = Some b \<and> b \<noteq> x \<and> b \<noteq> y \<and> b \<noteq> 0)"
    and xp: "parent (heap T x) = xp"
    and gg: "xp = None \<or> (\<exists>gg. xp = Some gg \<and> gg \<noteq> x \<and> gg \<noteq> y \<and> Some gg \<noteq> yr)"
  shows "right_rotate T (Some x) =
     Some (T\<lparr>heap := (\<lambda>a.
                 if a = x then (heap T x)\<lparr>left := yr, parent := Some y\<rparr>
                 else if a = y then (heap T y)\<lparr>parent := xp, right := Some x\<rparr>
                 else if Some a = yr \<and> yr \<noteq> NIL then (heap T a)\<lparr>parent := Some x\<rparr>
                 else if Some a = xp then
                   (if right (heap T a) = Some x then (heap T a)\<lparr>right := Some y\<rparr>
                    else (heap T a)\<lparr>left := Some y\<rparr>)
                 else heap T a),
             root := (if xp = None then Some y else root T)\<rparr>)"
proof -
  consider (nil_none) "yr = NIL" "xp = None"
    | (nil_some) gg where "yr = NIL" "xp = Some gg" "gg \<noteq> x" "gg \<noteq> y" "Some gg \<noteq> yr"
    | (node_none) b where "yr = Some b" "b \<noteq> x" "b \<noteq> y" "b \<noteq> 0" "xp = None"
    | (node_some) b gg where "yr = Some b" "b \<noteq> x" "b \<noteq> y" "b \<noteq> 0"
        "xp = Some gg" "gg \<noteq> x" "gg \<noteq> y" "gg \<noteq> b"
    using b gg by (auto simp: NIL_def)
  then show ?thesis
  proof cases
    case nil_none
    with xr yr xy xp show ?thesis
      by (auto simp: right_rotate_def attr_def assign_def fun_eq_iff NIL_def intro!: rbtree.equality)
  next
    case nil_some
    with xr yr xy xp show ?thesis
      by (auto simp: right_rotate_def attr_def assign_def fun_eq_iff NIL_def intro!: rbtree.equality)
  next
    case node_none
    with xr yr xy xp show ?thesis
      by (auto simp: right_rotate_def attr_def assign_def fun_eq_iff NIL_def intro!: rbtree.equality)
  next
    case node_some
    with xr yr xy xp show ?thesis
      by (auto simp: right_rotate_def attr_def assign_def fun_eq_iff NIL_def intro!: rbtree.equality)
  qed
qed

lemma shaped_nonzero: "shaped h par t \<Longrightarrow> 0 \<notin> set (addrs t)"
  by (induction t arbitrary: par) auto

lemma ptr_cases: "ptr t = NIL \<and> t = Tip \<or> (\<exists>a c l k v r. t = Fork a c l k v r \<and> ptr t = Some a)"
  by (cases t) auto

lemma left_rotate_root:
  assumes H: "hangs T sl (Fork x cx A kx vx (Fork y cy B ky vy C))"
  shows "\<exists>T'. left_rotate T (Some x) = Some T' \<and>
           replaces T T' sl (Fork x cx A kx vx (Fork y cy B ky vy C))
             (Fork y cy (Fork x cx A kx vx B) ky vy C)"
proof -
  let ?h = "heap T"
  define par where "par = map_option fst sl"
  let ?G = "Fork x cx A kx vx (Fork y cy B ky vy C)"
  let ?S = "Fork y cy (Fork x cx A kx vx B) ky vy C"
  from H have sh: "shaped ?h par ?G" and dG: "distinct (addrs ?G)"
    and nil: "?h 0 = Node None None False"
    by (simp_all add: hangs_def par_def)
  from sh have hx: "?h x = \<lparr>key = Some kx, val = Some vx, left = ptr A, right = Some y, parent = par, color = cx\<rparr>"
    and hy: "?h y = \<lparr>key = Some ky, val = Some vy, left = ptr B, right = ptr C, parent = Some x, color = cy\<rparr>"
    and shA: "shaped ?h (Some x) A" and shB: "shaped ?h (Some y) B" and shC: "shaped ?h (Some y) C"
    and x0: "x \<noteq> 0" and y0: "y \<noteq> 0"
    by simp_all
  from dG have xy: "x \<noteq> y" and xA: "x \<notin> set (addrs A)" and yA: "y \<notin> set (addrs A)"
    and xB: "x \<notin> set (addrs B)" and yB: "y \<notin> set (addrs B)"
    and xC: "x \<notin> set (addrs C)" and yC: "y \<notin> set (addrs C)"
    and AB: "set (addrs A) \<inter> set (addrs B) = {}" and AC: "set (addrs A) \<inter> set (addrs C) = {}"
    and BC: "set (addrs B) \<inter> set (addrs C) = {}" and dB: "distinct (addrs B)"
    by auto
  from shB have B0: "0 \<notin> set (addrs B)" by (rule shaped_nonzero)
  have mS: "mset (addrs ?S) = mset (addrs ?G)" by simp
  from dG have dS: "distinct (addrs ?S)" by auto
  have par: "a \<noteq> x \<and> a \<noteq> y \<and> a \<noteq> 0 \<and> a \<notin> set (addrs A) \<and> a \<notin> set (addrs B) \<and> a \<notin> set (addrs C)"
    if "Some a = par" for a
    using H that by (cases sl) (auto simp: hangs_def par_def)
  have b: "ptr B = NIL \<or> (\<exists>b. ptr B = Some b \<and> b \<noteq> x \<and> b \<noteq> y \<and> b \<noteq> 0)"
    using xB yB B0 by (cases B) auto
  have g: "par = None \<or> (\<exists>gg. par = Some gg \<and> gg \<noteq> x \<and> gg \<noteq> y \<and> Some gg \<noteq> ptr B)"
  proof (cases par)
    case None
    then show ?thesis by simp
  next
    case (Some gg)
    from par [OF Some [symmetric]] have "Some gg \<noteq> ptr B" by (cases B) (auto simp: NIL_def)
    with par [OF Some [symmetric]] Some show ?thesis by auto
  qed
  define h' where "h' = (\<lambda>a.
                 if a = x then (?h x)\<lparr>right := ptr B, parent := Some y\<rparr>
                 else if a = y then (?h y)\<lparr>parent := par, left := Some x\<rparr>
                 else if Some a = ptr B \<and> ptr B \<noteq> NIL then (?h a)\<lparr>parent := Some x\<rparr>
                 else if Some a = par then
                   (if left (?h a) = Some x then (?h a)\<lparr>left := Some y\<rparr>
                    else (?h a)\<lparr>right := Some y\<rparr>)
                 else ?h a)"
  define T' where "T' = T\<lparr>heap := h', root := (if par = None then Some y else root T)\<rparr>"
  have rot: "left_rotate T (Some x) = Some T'"
    unfolding T'_def h'_def
    by (rule left_rotate_heap [OF _ _ xy b _ g]) (simp_all add: hx hy)
  have h'x: "h' x = \<lparr>key = Some kx, val = Some vx, left = ptr A, right = ptr B, parent = Some y, color = cx\<rparr>"
    by (simp add: h'_def hx)
  have h'y: "h' y = \<lparr>key = Some ky, val = Some vy, left = Some x, right = ptr C, parent = par, color = cy\<rparr>"
    using xy by (simp add: h'_def hy)
  have same: "h' a = ?h a" if "a \<noteq> x" "a \<noteq> y" "Some a \<noteq> ptr B \<or> ptr B = NIL" "Some a \<noteq> par" for a
    using that by (auto simp: h'_def)
  have h'0: "h' 0 = Node None None False"
  proof -
    have "Some 0 \<noteq> par" using par [of 0] by auto
    moreover have "Some 0 \<noteq> ptr B \<or> ptr B = NIL" using B0 by (cases B) auto
    ultimately have "h' 0 = ?h 0" using x0 y0 by (intro same) auto
    with nil show ?thesis by simp
  qed
  have out: "h' a = ?h a" if "a \<noteq> x" "a \<noteq> y" "a \<notin> set (addrs B)" "Some a \<noteq> par" for a
  proof -
    from that(3) have "Some a \<noteq> ptr B \<or> ptr B = NIL" by (cases B) auto
    with that show ?thesis by (intro same)
  qed
  have shA': "shaped h' (Some x) A"
  proof (rule shaped_transfer [OF shA], rule ballI, rule out)
    fix a assume a: "a \<in> set (addrs A)"
    show "a \<noteq> x" "a \<noteq> y" "a \<notin> set (addrs B)" using a xA yA AB by auto
    show "Some a \<noteq> par" using par [of a] a by auto
  qed
  have shC': "shaped h' (Some y) C"
  proof (rule shaped_transfer [OF shC], rule ballI, rule out)
    fix a assume a: "a \<in> set (addrs C)"
    show "a \<noteq> x" "a \<noteq> y" "a \<notin> set (addrs B)" using a xC yC BC by auto
    show "Some a \<noteq> par" using par [of a] a by auto
  qed
  have shB': "shaped h' (Some x) B"
  proof (cases B)
    case Tip
    then show ?thesis by simp
  next
    case (Fork b cb bl bk bv br)
    from dB Fork have bb: "b \<notin> set (addrs bl)" "b \<notin> set (addrs br)" by auto
    have inner: "h' a = ?h a" if "a \<in> set (addrs bl) \<or> a \<in> set (addrs br)" for a
    proof (rule same)
      from that Fork have aB: "a \<in> set (addrs B)" by auto
      show "a \<noteq> x" "a \<noteq> y" using aB xB yB by auto
      show "Some a \<noteq> ptr B \<or> ptr B = NIL" using that bb Fork by auto
      show "Some a \<noteq> par" using par [of a] aB by auto
    qed
    have "b \<noteq> 0" "b \<noteq> x" "b \<noteq> y" using B0 xB yB Fork by auto
    then have hb: "h' b = (?h b)\<lparr>parent := Some x\<rparr>"
      using Fork by (simp add: h'_def NIL_def)
    from shB Fork have "shaped ?h (Some b) bl" "shaped ?h (Some b) br" by simp_all
    then have "shaped h' (Some b) bl" "shaped h' (Some b) br"
      using inner by (auto intro: shaped_transfer)
    with hb shB Fork show ?thesis by simp
  qed
  have sh': "shaped h' par ?S"
    using h'x h'y shA' shB' shC' x0 y0 by simp
  have hangs': "hangs T' sl ?S"
  proof (cases sl)
    case None
    with sh' dG h'0 show ?thesis by (simp add: hangs_def T'_def par_def)
  next
    case (Some p)
    obtain gg dd where p: "p = (gg, dd)" by (cases p)
    with Some have pg: "Some gg = par" by (simp add: par_def)
    note gn = par [OF pg]
    have gB: "Some gg \<noteq> ptr B" using gn by (cases B) (auto simp: NIL_def)
    have hg: "h' gg = (if left (?h gg) = Some x then (?h gg)\<lparr>left := Some y\<rparr>
                    else (?h gg)\<lparr>right := Some y\<rparr>)"
      using gn gB pg [symmetric] by (simp add: h'_def)
    from H Some p have pos:
      "dd = Lft \<longrightarrow> left (?h gg) = Some x \<and> (\<forall>a \<in> set (addrs ?G). right (?h gg) \<noteq> Some a)"
      "dd = Rgt \<longrightarrow> right (?h gg) = Some x \<and> (\<forall>a \<in> set (addrs ?G). left (?h gg) \<noteq> Some a)"
      by (simp_all add: hangs_def)
    have sS: "set (addrs ?S) = set (addrs ?G)" by auto
    have "dd = Lft \<longrightarrow> left (h' gg) = Some y \<and> (\<forall>a \<in> set (addrs ?G). right (h' gg) \<noteq> Some a)"
      "dd = Rgt \<longrightarrow> right (h' gg) = Some y \<and> (\<forall>a \<in> set (addrs ?G). left (h' gg) \<noteq> Some a)"
      using pos hg by (cases dd; auto)+
    moreover have "gg \<noteq> 0" "gg \<notin> set (addrs ?G)" using gn by simp_all
    ultimately show ?thesis
      using sh' dS h'0 Some p sS
      unfolding hangs_def T'_def par_def by (simp del: addrs.simps shaped.simps)
  qed
  have outside: "\<forall>b. b \<notin> set (addrs ?G) \<longrightarrow> (\<forall>d. sl \<noteq> Some (b, d)) \<longrightarrow> heap T' b = ?h b"
  proof (intro allI impI)
    fix a assume a: "a \<notin> set (addrs ?G)" and n: "\<forall>d. sl \<noteq> Some (a, d)"
    from n have "Some a \<noteq> par" by (cases sl) (auto simp: par_def)
    with a have "h' a = ?h a" by (intro out) auto
    then show "heap T' a = ?h a" by (simp add: T'_def)
  qed
  have hole: "case sl of None \<Rightarrow> True
      | Some (gg, dd) \<Rightarrow> root T' = root T \<and>
          (dd = Lft \<longrightarrow> heap T' gg = (?h gg)\<lparr>left := ptr ?S\<rparr>) \<and>
          (dd = Rgt \<longrightarrow> heap T' gg = (?h gg)\<lparr>right := ptr ?S\<rparr>)"
  proof (cases sl)
    case None
    then show ?thesis by simp
  next
    case (Some p)
    obtain gg dd where p: "p = (gg, dd)" by (cases p)
    with Some have pg: "Some gg = par" by (simp add: par_def)
    note gn = par [OF pg]
    have gB: "Some gg \<noteq> ptr B" using gn by (cases B) (auto simp: NIL_def)
    have hg: "h' gg = (if left (?h gg) = Some x then (?h gg)\<lparr>left := Some y\<rparr>
                    else (?h gg)\<lparr>right := Some y\<rparr>)"
      using gn gB pg [symmetric] by (simp add: h'_def)
    from H Some p have pos: "dd = Lft \<longrightarrow> left (?h gg) = Some x"
      "dd = Rgt \<longrightarrow> right (?h gg) = Some x \<and> left (?h gg) \<noteq> Some x"
      by (auto simp: hangs_def)
    with hg Some p show ?thesis by (cases dd) (auto simp: T'_def par_def)
  qed
  have "replaces T T' sl ?G ?S"
    unfolding replaces_def using hangs' mS outside hole
    by (cases sl) (auto simp: T'_def simp del: addrs.simps)
  with rot show ?thesis by blast
qed

lemma right_rotate_root:
  assumes H: "hangs T sl (Fork x cx (Fork y cy C ky vy B) kx vx A)"
  shows "\<exists>T'. right_rotate T (Some x) = Some T' \<and>
           replaces T T' sl (Fork x cx (Fork y cy C ky vy B) kx vx A)
             (Fork y cy C ky vy (Fork x cx B kx vx A))"
proof -
  let ?h = "heap T"
  define par where "par = map_option fst sl"
  let ?G = "Fork x cx (Fork y cy C ky vy B) kx vx A"
  let ?S = "Fork y cy C ky vy (Fork x cx B kx vx A)"
  from H have sh: "shaped ?h par ?G" and dG: "distinct (addrs ?G)"
    and nil: "?h 0 = Node None None False"
    by (simp_all add: hangs_def par_def)
  from sh have hx: "?h x = \<lparr>key = Some kx, val = Some vx, left = Some y, right = ptr A, parent = par, color = cx\<rparr>"
    and hy: "?h y = \<lparr>key = Some ky, val = Some vy, left = ptr C, right = ptr B, parent = Some x, color = cy\<rparr>"
    and shA: "shaped ?h (Some x) A" and shB: "shaped ?h (Some y) B" and shC: "shaped ?h (Some y) C"
    and x0: "x \<noteq> 0" and y0: "y \<noteq> 0"
    by simp_all
  from dG have xy: "x \<noteq> y" and xA: "x \<notin> set (addrs A)" and yA: "y \<notin> set (addrs A)"
    and xB: "x \<notin> set (addrs B)" and yB: "y \<notin> set (addrs B)"
    and xC: "x \<notin> set (addrs C)" and yC: "y \<notin> set (addrs C)"
    and AB: "set (addrs A) \<inter> set (addrs B) = {}" and AC: "set (addrs A) \<inter> set (addrs C) = {}"
    and BC: "set (addrs B) \<inter> set (addrs C) = {}" and dB: "distinct (addrs B)"
    by auto
  from shB have B0: "0 \<notin> set (addrs B)" by (rule shaped_nonzero)
  have mS: "mset (addrs ?S) = mset (addrs ?G)" by simp
  from dG have dS: "distinct (addrs ?S)" by auto
  have par: "a \<noteq> x \<and> a \<noteq> y \<and> a \<noteq> 0 \<and> a \<notin> set (addrs A) \<and> a \<notin> set (addrs B) \<and> a \<notin> set (addrs C)"
    if "Some a = par" for a
    using H that by (cases sl) (auto simp: hangs_def par_def)
  have b: "ptr B = NIL \<or> (\<exists>b. ptr B = Some b \<and> b \<noteq> x \<and> b \<noteq> y \<and> b \<noteq> 0)"
    using xB yB B0 by (cases B) auto
  have g: "par = None \<or> (\<exists>gg. par = Some gg \<and> gg \<noteq> x \<and> gg \<noteq> y \<and> Some gg \<noteq> ptr B)"
  proof (cases par)
    case None
    then show ?thesis by simp
  next
    case (Some gg)
    from par [OF Some [symmetric]] have "Some gg \<noteq> ptr B" by (cases B) (auto simp: NIL_def)
    with par [OF Some [symmetric]] Some show ?thesis by auto
  qed
  define h' where "h' = (\<lambda>a.
                 if a = x then (?h x)\<lparr>left := ptr B, parent := Some y\<rparr>
                 else if a = y then (?h y)\<lparr>parent := par, right := Some x\<rparr>
                 else if Some a = ptr B \<and> ptr B \<noteq> NIL then (?h a)\<lparr>parent := Some x\<rparr>
                 else if Some a = par then
                   (if right (?h a) = Some x then (?h a)\<lparr>right := Some y\<rparr>
                    else (?h a)\<lparr>left := Some y\<rparr>)
                 else ?h a)"
  define T' where "T' = T\<lparr>heap := h', root := (if par = None then Some y else root T)\<rparr>"
  have rot: "right_rotate T (Some x) = Some T'"
    unfolding T'_def h'_def
    by (rule right_rotate_heap [OF _ _ xy b _ g]) (simp_all add: hx hy)
  have h'x: "h' x = \<lparr>key = Some kx, val = Some vx, left = ptr B, right = ptr A, parent = Some y, color = cx\<rparr>"
    by (simp add: h'_def hx)
  have h'y: "h' y = \<lparr>key = Some ky, val = Some vy, left = ptr C, right = Some x, parent = par, color = cy\<rparr>"
    using xy by (simp add: h'_def hy)
  have same: "h' a = ?h a" if "a \<noteq> x" "a \<noteq> y" "Some a \<noteq> ptr B \<or> ptr B = NIL" "Some a \<noteq> par" for a
    using that by (auto simp: h'_def)
  have h'0: "h' 0 = Node None None False"
  proof -
    have "Some 0 \<noteq> par" using par [of 0] by auto
    moreover have "Some 0 \<noteq> ptr B \<or> ptr B = NIL" using B0 by (cases B) auto
    ultimately have "h' 0 = ?h 0" using x0 y0 by (intro same) auto
    with nil show ?thesis by simp
  qed
  have out: "h' a = ?h a" if "a \<noteq> x" "a \<noteq> y" "a \<notin> set (addrs B)" "Some a \<noteq> par" for a
  proof -
    from that(3) have "Some a \<noteq> ptr B \<or> ptr B = NIL" by (cases B) auto
    with that show ?thesis by (intro same)
  qed
  have shA': "shaped h' (Some x) A"
  proof (rule shaped_transfer [OF shA], rule ballI, rule out)
    fix a assume a: "a \<in> set (addrs A)"
    show "a \<noteq> x" "a \<noteq> y" "a \<notin> set (addrs B)" using a xA yA AB by auto
    show "Some a \<noteq> par" using par [of a] a by auto
  qed
  have shC': "shaped h' (Some y) C"
  proof (rule shaped_transfer [OF shC], rule ballI, rule out)
    fix a assume a: "a \<in> set (addrs C)"
    show "a \<noteq> x" "a \<noteq> y" "a \<notin> set (addrs B)" using a xC yC BC by auto
    show "Some a \<noteq> par" using par [of a] a by auto
  qed
  have shB': "shaped h' (Some x) B"
  proof (cases B)
    case Tip
    then show ?thesis by simp
  next
    case (Fork b cb br bk bv bl)
    from dB Fork have bb: "b \<notin> set (addrs bl)" "b \<notin> set (addrs br)" by auto
    have inner: "h' a = ?h a" if "a \<in> set (addrs bl) \<or> a \<in> set (addrs br)" for a
    proof (rule same)
      from that Fork have aB: "a \<in> set (addrs B)" by auto
      show "a \<noteq> x" "a \<noteq> y" using aB xB yB by auto
      show "Some a \<noteq> ptr B \<or> ptr B = NIL" using that bb Fork by auto
      show "Some a \<noteq> par" using par [of a] aB by auto
    qed
    have "b \<noteq> 0" "b \<noteq> x" "b \<noteq> y" using B0 xB yB Fork by auto
    then have hb: "h' b = (?h b)\<lparr>parent := Some x\<rparr>"
      using Fork by (simp add: h'_def NIL_def)
    from shB Fork have "shaped ?h (Some b) bl" "shaped ?h (Some b) br" by simp_all
    then have "shaped h' (Some b) bl" "shaped h' (Some b) br"
      using inner by (auto intro: shaped_transfer)
    with hb shB Fork show ?thesis by simp
  qed
  have sh': "shaped h' par ?S"
    using h'x h'y shA' shB' shC' x0 y0 by simp
  have hangs': "hangs T' sl ?S"
  proof (cases sl)
    case None
    with sh' dG h'0 show ?thesis by (simp add: hangs_def T'_def par_def)
  next
    case (Some p)
    obtain gg dd where p: "p = (gg, dd)" by (cases p)
    with Some have pg: "Some gg = par" by (simp add: par_def)
    note gn = par [OF pg]
    have gB: "Some gg \<noteq> ptr B" using gn by (cases B) (auto simp: NIL_def)
    have hg: "h' gg = (if right (?h gg) = Some x then (?h gg)\<lparr>right := Some y\<rparr>
                    else (?h gg)\<lparr>left := Some y\<rparr>)"
      using gn gB pg [symmetric] by (simp add: h'_def)
    from H Some p have pos:
      "dd = Rgt \<longrightarrow> right (?h gg) = Some x \<and> (\<forall>a \<in> set (addrs ?G). left (?h gg) \<noteq> Some a)"
      "dd = Lft \<longrightarrow> left (?h gg) = Some x \<and> (\<forall>a \<in> set (addrs ?G). right (?h gg) \<noteq> Some a)"
      by (simp_all add: hangs_def)
    have sS: "set (addrs ?S) = set (addrs ?G)" by auto
    have "dd = Rgt \<longrightarrow> right (h' gg) = Some y \<and> (\<forall>a \<in> set (addrs ?G). left (h' gg) \<noteq> Some a)"
      "dd = Lft \<longrightarrow> left (h' gg) = Some y \<and> (\<forall>a \<in> set (addrs ?G). right (h' gg) \<noteq> Some a)"
      using pos hg by (cases dd; auto)+
    moreover have "gg \<noteq> 0" "gg \<notin> set (addrs ?G)" using gn by simp_all
    ultimately show ?thesis
      using sh' dS h'0 Some p sS
      unfolding hangs_def T'_def par_def by (simp del: addrs.simps shaped.simps)
  qed
  have outside: "\<forall>b. b \<notin> set (addrs ?G) \<longrightarrow> (\<forall>d. sl \<noteq> Some (b, d)) \<longrightarrow> heap T' b = ?h b"
  proof (intro allI impI)
    fix a assume a: "a \<notin> set (addrs ?G)" and n: "\<forall>d. sl \<noteq> Some (a, d)"
    from n have "Some a \<noteq> par" by (cases sl) (auto simp: par_def)
    with a have "h' a = ?h a" by (intro out) auto
    then show "heap T' a = ?h a" by (simp add: T'_def)
  qed
  have hole: "case sl of None \<Rightarrow> True
      | Some (gg, dd) \<Rightarrow> root T' = root T \<and>
          (dd = Rgt \<longrightarrow> heap T' gg = (?h gg)\<lparr>right := ptr ?S\<rparr>) \<and>
          (dd = Lft \<longrightarrow> heap T' gg = (?h gg)\<lparr>left := ptr ?S\<rparr>)"
  proof (cases sl)
    case None
    then show ?thesis by simp
  next
    case (Some p)
    obtain gg dd where p: "p = (gg, dd)" by (cases p)
    with Some have pg: "Some gg = par" by (simp add: par_def)
    note gn = par [OF pg]
    have gB: "Some gg \<noteq> ptr B" using gn by (cases B) (auto simp: NIL_def)
    have hg: "h' gg = (if right (?h gg) = Some x then (?h gg)\<lparr>right := Some y\<rparr>
                    else (?h gg)\<lparr>left := Some y\<rparr>)"
      using gn gB pg [symmetric] by (simp add: h'_def)
    from H Some p have pos: "dd = Rgt \<longrightarrow> right (?h gg) = Some x"
      "dd = Lft \<longrightarrow> left (?h gg) = Some x \<and> right (?h gg) \<noteq> Some x"
      by (auto simp: hangs_def)
    with hg Some p show ?thesis by (cases dd) (auto simp: T'_def par_def)
  qed
  have "replaces T T' sl ?G ?S"
    unfolding replaces_def using hangs' mS outside hole
    by (cases sl) (auto simp: T'_def simp del: addrs.simps)
  with rot show ?thesis by blast
qed

lemma hangs_node:
  "hangs T sl (Fork a c l k v r) \<Longrightarrow>
   heap T a = \<lparr>key = Some k, val = Some v, left = ptr l, right = ptr r,
               parent = map_option fst sl, color = c\<rparr>"
  by (simp add: hangs_def)

lemma hangs_nil: "hangs T sl G \<Longrightarrow> heap T 0 = Node None None False"
  by (simp add: hangs_def)

lemma paint_root:
  assumes H: "hangs T sl (Fork a c l k v r)"
  shows "\<exists>T'. assign T (Some a) (\<lambda>n. n\<lparr>color := c'\<rparr>) = Some T' \<and>
           replaces T T' sl (Fork a c l k v r) (Fork a c' l k v r)"
proof -
  let ?h = "heap T"
  define T' where "T' = T\<lparr>heap := ?h(a := (?h a)\<lparr>color := c'\<rparr>)\<rparr>"
  have as: "assign T (Some a) (\<lambda>n. n\<lparr>color := c'\<rparr>) = Some T'"
    by (simp add: assign_def T'_def)
  from H have d: "distinct (addrs (Fork a c l k v r))" and a0: "a \<noteq> 0"
    and sh: "shaped ?h (map_option fst sl) (Fork a c l k v r)"
    and nil: "?h 0 = Node None None False"
    by (simp_all add: hangs_def)
  from d have al: "a \<notin> set (addrs l)" and ar: "a \<notin> set (addrs r)" by auto
  from sh al ar have sh': "shaped (heap T') (map_option fst sl) (Fork a c' l k v r)"
    by (simp add: T'_def shaped_upd_other)
  have sa: "\<And>gg dd. sl = Some (gg, dd) \<Longrightarrow> gg \<noteq> a"
    using H by (auto simp: hangs_def)
  have "hangs T' sl (Fork a c' l k v r)"
  proof (cases sl)
    case None
    with H sh' nil a0 show ?thesis by (simp add: hangs_def T'_def)
  next
    case (Some p)
    obtain gg dd where p: "p = (gg, dd)" by (cases p)
    from sa Some p have "gg \<noteq> a" by simp
    with H sh' nil a0 Some p show ?thesis
      by (simp add: hangs_def T'_def)
  qed
  moreover have "case sl of None \<Rightarrow> True
      | Some (gg, dd) \<Rightarrow> root T' = root T \<and>
          (dd = Lft \<longrightarrow> heap T' gg = (?h gg)\<lparr>left := Some a\<rparr>) \<and>
          (dd = Rgt \<longrightarrow> heap T' gg = (?h gg)\<lparr>right := Some a\<rparr>)"
  proof (cases sl)
    case None
    then show ?thesis by simp
  next
    case (Some p)
    obtain gg dd where p: "p = (gg, dd)" by (cases p)
    from sa Some p have "gg \<noteq> a" by simp
    moreover from H Some p have "dd = Lft \<longrightarrow> left (?h gg) = Some a"
      "dd = Rgt \<longrightarrow> right (?h gg) = Some a"
      by (simp_all add: hangs_def)
    ultimately show ?thesis using Some p by (simp add: T'_def)
  qed
  ultimately have "replaces T T' sl (Fork a c l k v r) (Fork a c' l k v r)"
    unfolding replaces_def by (cases sl) (auto simp: T'_def)
  with as show ?thesis by blast
qed

lemma shaped_ptr_notin:
  "shaped h par t \<Longrightarrow> b \<notin> set (addrs t) \<Longrightarrow> b \<noteq> 0 \<Longrightarrow> ptr t \<noteq> Some b"
  by (cases t) (auto simp: NIL_def)

lemma hangs_left:
  assumes H: "hangs T sl (Fork a c l k v r)"
  shows "hangs T (Some (a, Lft)) l"
proof -
  from H have sh: "shaped (heap T) (Some a) l" "shaped (heap T) (Some a) r"
    and d: "distinct (addrs (Fork a c l k v r))" and a0: "a \<noteq> 0"
    and ha: "left (heap T a) = ptr l" "right (heap T a) = ptr r"
    and nil: "heap T 0 = Node None None False"
    by (simp_all add: hangs_def)
  from sh(1) have l0: "0 \<notin> set (addrs l)" by (rule shaped_nonzero)
  have "\<forall>b \<in> set (addrs l). ptr r \<noteq> Some b"
  proof
    fix b assume b: "b \<in> set (addrs l)"
    with d have "b \<notin> set (addrs r)" by auto
    moreover from b l0 have "b \<noteq> 0" by (cases "b = 0") auto
    ultimately show "ptr r \<noteq> Some b" using sh(2) by (intro shaped_ptr_notin)
  qed
  with sh d a0 ha nil show ?thesis by (simp add: hangs_def)
qed

lemma replaces_left:
  assumes H: "hangs T sl (Fork a c l k v r)" and R: "replaces T T' (Some (a, Lft)) l l'"
  shows "replaces T T' sl (Fork a c l k v r) (Fork a c l' k v r)"
proof -
  let ?h = "heap T" and ?h' = "heap T'"
  let ?G = "Fork a c l k v r" and ?S = "Fork a c l' k v r"
  from H have sh: "shaped ?h (map_option fst sl) ?G" and d: "distinct (addrs ?G)" and a0: "a \<noteq> 0"
    by (simp_all add: hangs_def)
  from R have H': "hangs T' (Some (a, Lft)) l'" and m: "mset (addrs l') = mset (addrs l)"
    and fr: "fresh T' = fresh T" and rt: "root T' = root T"
    and ha': "?h' a = (?h a)\<lparr>left := ptr l'\<rparr>"
    and out: "\<And>b. b \<notin> set (addrs l) \<Longrightarrow> b \<noteq> a \<Longrightarrow> ?h' b = ?h b"
    by (auto simp: replaces_def)
  from m have s: "set (addrs l') = set (addrs l)" by (metis set_mset_mset)
  from d have ar: "a \<notin> set (addrs r)" and lr: "set (addrs l) \<inter> set (addrs r) = {}" by auto
  have shr: "shaped ?h' (Some a) r"
  proof (rule shaped_transfer)
    from sh show "shaped ?h (Some a) r" by simp
    show "\<forall>b \<in> set (addrs r). ?h' b = ?h b" using ar lr by (auto intro!: out)
  qed
  from H' have shl: "shaped ?h' (Some a) l'" and nil': "?h' 0 = Node None None False"
    by (simp_all add: hangs_def)
  from sh ha' shl shr a0 have sh': "shaped ?h' (map_option fst sl) ?S" by simp
  from m have mS: "mset (addrs ?S) = mset (addrs ?G)" by simp
  with d have dS: "distinct (addrs ?S)" by (metis mset_eq_imp_distinct_iff)
  from mS have sS: "set (addrs ?S) = set (addrs ?G)" by (metis set_mset_mset)
  have outside: "?h' b = ?h b" if "b \<notin> set (addrs ?G)" for b
    using that by (intro out) auto
  have "hangs T' sl ?S \<and> (case sl of None \<Rightarrow> True
      | Some (gg, dd) \<Rightarrow> root T' = root T \<and>
          (dd = Lft \<longrightarrow> ?h' gg = (?h gg)\<lparr>left := ptr ?S\<rparr>) \<and>
          (dd = Rgt \<longrightarrow> ?h' gg = (?h gg)\<lparr>right := ptr ?S\<rparr>))"
  proof (cases sl)
    case None
    with H rt sh' dS nil' show ?thesis by (simp add: hangs_def del: addrs.simps shaped.simps)
  next
    case (Some p)
    obtain gg dd where p: "p = (gg, dd)" by (cases p)
    from H Some p have g: "gg \<noteq> 0" "gg \<notin> set (addrs ?G)"
      and pos: "dd = Lft \<longrightarrow> left (?h gg) = Some a \<and> (\<forall>b \<in> set (addrs ?G). right (?h gg) \<noteq> Some b)"
        "dd = Rgt \<longrightarrow> right (?h gg) = Some a \<and> (\<forall>b \<in> set (addrs ?G). left (?h gg) \<noteq> Some b)"
      by (simp_all add: hangs_def del: addrs.simps)
    from g have hg: "?h' gg = ?h gg" by (intro outside)
    have upd: "dd = Lft \<longrightarrow> (?h gg)\<lparr>left := Some a\<rparr> = ?h gg" "dd = Rgt \<longrightarrow> (?h gg)\<lparr>right := Some a\<rparr> = ?h gg"
      using pos by auto
    show ?thesis
      using Some p g pos hg upd rt sh' dS nil' sS
      by (simp add: hangs_def del: addrs.simps shaped.simps)
  qed
  then show ?thesis
    unfolding replaces_def using mS fr outside by (cases sl) (auto simp del: addrs.simps)
qed

lemma hangs_right:
  assumes H: "hangs T sl (Fork a c r k v l)"
  shows "hangs T (Some (a, Rgt)) l"
proof -
  from H have sh: "shaped (heap T) (Some a) l" "shaped (heap T) (Some a) r"
    and d: "distinct (addrs (Fork a c r k v l))" and a0: "a \<noteq> 0"
    and ha: "right (heap T a) = ptr l" "left (heap T a) = ptr r"
    and nil: "heap T 0 = Node None None False"
    by (simp_all add: hangs_def)
  from sh(1) have l0: "0 \<notin> set (addrs l)" by (rule shaped_nonzero)
  have "\<forall>b \<in> set (addrs l). ptr r \<noteq> Some b"
  proof
    fix b assume b: "b \<in> set (addrs l)"
    with d have "b \<notin> set (addrs r)" by auto
    moreover from b l0 have "b \<noteq> 0" by (cases "b = 0") auto
    ultimately show "ptr r \<noteq> Some b" using sh(2) by (intro shaped_ptr_notin)
  qed
  with sh d a0 ha nil show ?thesis by (simp add: hangs_def)
qed

lemma replaces_right:
  assumes H: "hangs T sl (Fork a c r k v l)" and L: "replaces T T' (Some (a, Rgt)) l l'"
  shows "replaces T T' sl (Fork a c r k v l) (Fork a c r k v l')"
proof -
  let ?h = "heap T" and ?h' = "heap T'"
  let ?G = "Fork a c r k v l" and ?S = "Fork a c r k v l'"
  from H have sh: "shaped ?h (map_option fst sl) ?G" and d: "distinct (addrs ?G)" and a0: "a \<noteq> 0"
    by (simp_all add: hangs_def)
  from L have H': "hangs T' (Some (a, Rgt)) l'" and m: "mset (addrs l') = mset (addrs l)"
    and fr: "fresh T' = fresh T" and rt: "root T' = root T"
    and ha': "?h' a = (?h a)\<lparr>right := ptr l'\<rparr>"
    and out: "\<And>b. b \<notin> set (addrs l) \<Longrightarrow> b \<noteq> a \<Longrightarrow> ?h' b = ?h b"
    by (auto simp: replaces_def)
  from m have s: "set (addrs l') = set (addrs l)" by (metis set_mset_mset)
  from d have ar: "a \<notin> set (addrs r)" and lr: "set (addrs l) \<inter> set (addrs r) = {}" by auto
  have shr: "shaped ?h' (Some a) r"
  proof (rule shaped_transfer)
    from sh show "shaped ?h (Some a) r" by simp
    show "\<forall>b \<in> set (addrs r). ?h' b = ?h b" using ar lr by (auto intro!: out)
  qed
  from H' have shl: "shaped ?h' (Some a) l'" and nil': "?h' 0 = Node None None False"
    by (simp_all add: hangs_def)
  from sh ha' shl shr a0 have sh': "shaped ?h' (map_option fst sl) ?S" by simp
  from m have mS: "mset (addrs ?S) = mset (addrs ?G)" by simp
  with d have dS: "distinct (addrs ?S)" by (metis mset_eq_imp_distinct_iff)
  from mS have sS: "set (addrs ?S) = set (addrs ?G)" by (metis set_mset_mset)
  have outside: "?h' b = ?h b" if "b \<notin> set (addrs ?G)" for b
    using that by (intro out) auto
  have "hangs T' sl ?S \<and> (case sl of None \<Rightarrow> True
      | Some (gg, dd) \<Rightarrow> root T' = root T \<and>
          (dd = Rgt \<longrightarrow> ?h' gg = (?h gg)\<lparr>right := ptr ?S\<rparr>) \<and>
          (dd = Lft \<longrightarrow> ?h' gg = (?h gg)\<lparr>left := ptr ?S\<rparr>))"
  proof (cases sl)
    case None
    with H rt sh' dS nil' show ?thesis by (simp add: hangs_def del: addrs.simps shaped.simps)
  next
    case (Some p)
    obtain gg dd where p: "p = (gg, dd)" by (cases p)
    from H Some p have g: "gg \<noteq> 0" "gg \<notin> set (addrs ?G)"
      and pos: "dd = Rgt \<longrightarrow> right (?h gg) = Some a \<and> (\<forall>b \<in> set (addrs ?G). left (?h gg) \<noteq> Some b)"
        "dd = Lft \<longrightarrow> left (?h gg) = Some a \<and> (\<forall>b \<in> set (addrs ?G). right (?h gg) \<noteq> Some b)"
      by (simp_all add: hangs_def del: addrs.simps)
    from g have hg: "?h' gg = ?h gg" by (intro outside)
    have upd: "dd = Rgt \<longrightarrow> (?h gg)\<lparr>right := Some a\<rparr> = ?h gg" "dd = Lft \<longrightarrow> (?h gg)\<lparr>left := Some a\<rparr> = ?h gg"
      using pos by auto
    show ?thesis
      using Some p g pos hg upd rt sh' dS nil' sS
      by (simp add: hangs_def del: addrs.simps shaped.simps)
  qed
  then show ?thesis
    unfolding replaces_def using mS fr outside by (cases sl) (auto simp del: addrs.simps)
qed

lemma replaces_trans:
  assumes "replaces T T1 sl G S1" and "replaces T1 T2 sl S1 S2"
  shows "replaces T T2 sl G S2"
proof -
  from assms have s: "set (addrs S1) = set (addrs G)"
    unfolding replaces_def by (metis set_mset_mset)
  show ?thesis
  proof (cases sl)
    case None
    with assms s show ?thesis by (simp add: replaces_def)
  next
    case (Some p)
    obtain gg dd where p: "p = (gg, dd)" by (cases p)
    with assms s Some show ?thesis by (cases dd) (auto simp: replaces_def)
  qed
qed

lemma replaces_hangs: "replaces T T' sl G S \<Longrightarrow> hangs T' sl S"
  by (simp add: replaces_def)

lemma attr_Some: "attr f T (Some a) = Some (f (heap T a))"
  by (simp add: attr_def)

lemma attr_color_ptr:
  "shaped (heap T) par t \<Longrightarrow> heap T 0 = Node None None False \<Longrightarrow>
   attr color T (ptr t) = Some (red_of t)"
  by (cases t) (auto simp: attr_def NIL_def Node_def)

lemma paint_left_child:
  assumes H: "hangs T sl (Fork a c (Fork b cb bl bk bv br) k v r)"
  shows "\<exists>T'. assign T (Some b) (\<lambda>n. n\<lparr>color := c'\<rparr>) = Some T' \<and>
           replaces T T' sl (Fork a c (Fork b cb bl bk bv br) k v r)
             (Fork a c (Fork b c' bl bk bv br) k v r)"
  using paint_root [OF hangs_left [OF H], of c'] replaces_left [OF H] by blast

lemma paint_right_child:
  assumes H: "hangs T sl (Fork a c l k v (Fork b cb bl bk bv br))"
  shows "\<exists>T'. assign T (Some b) (\<lambda>n. n\<lparr>color := c'\<rparr>) = Some T' \<and>
           replaces T T' sl (Fork a c l k v (Fork b cb bl bk bv br))
             (Fork a c l k v (Fork b c' bl bk bv br))"
  using paint_root [OF hangs_right [OF H], of c'] replaces_right [OF H] by blast

lemma child_parent:
  assumes H: "hangs T sl (Fork p pc pl pk pv pr)" and k: "child_of k (Fork p pc' pl pk' pv' pr)"
  shows "parent (heap T k) = Some p"
proof -
  from k consider kc kl kk kv kr where "pl = Fork k kc kl kk kv kr"
    | kc kl kk kv kr where "pr = Fork k kc kl kk kv kr"
    by (auto simp: child_of_def)
  then show ?thesis
  proof cases
    case 1
    with hangs_node [OF hangs_left [OF H [unfolded 1]]] show ?thesis by simp
  next
    case 2
    with hangs_node [OF hangs_right [OF H [unfolded 2]]] show ?thesis by simp
  qed
qed

lemma fix_right_red_uncle:
  assumes H: "hangs T sl (Fork g gc (Fork u True ul uk uv ur) gk gv (Fork p pc pl pk pv pr))"
    and k: "child_of k (Fork p pc pl pk pv pr)"
  shows "\<exists>T'. fix_right T (Some k) = Some (T', Some g) \<and>
           replaces T T' sl (Fork g gc (Fork u True ul uk uv ur) gk gv (Fork p pc pl pk pv pr))
             (Fork g True (Fork u False ul uk uv ur) gk gv (Fork p False pl pk pv pr))"
proof -
  let ?par = "map_option fst sl"
  have kp: "parent (heap T' k) = Some p"
    if "hangs T' sl (Fork g gc' U gk gv (Fork p pc' pl pk pv pr))" for T' gc' U pc'
    using child_parent [OF hangs_right [OF that] k] .
  note n0 = hangs_node [OF H] hangs_node [OF hangs_left [OF H]] hangs_node [OF hangs_right [OF H]] kp [OF H]
  from paint_left_child [OF H, of False] obtain T1
    where a1: "assign T (Some u) (\<lambda>n. n\<lparr>color := False\<rparr>) = Some T1"
      and r1: "replaces T T1 sl (Fork g gc (Fork u True ul uk uv ur) gk gv (Fork p pc pl pk pv pr))
                 (Fork g gc (Fork u False ul uk uv ur) gk gv (Fork p pc pl pk pv pr))"
    by blast
  note H1 = replaces_hangs [OF r1]
  note n1 = hangs_node [OF H1] hangs_node [OF hangs_right [OF H1]] kp [OF H1]
  from paint_right_child [OF H1, of False] obtain T2
    where a2: "assign T1 (Some p) (\<lambda>n. n\<lparr>color := False\<rparr>) = Some T2"
      and r2: "replaces T1 T2 sl (Fork g gc (Fork u False ul uk uv ur) gk gv (Fork p pc pl pk pv pr))
                 (Fork g gc (Fork u False ul uk uv ur) gk gv (Fork p False pl pk pv pr))"
    by blast
  note H2 = replaces_hangs [OF r2]
  note n2 = hangs_node [OF H2] hangs_node [OF hangs_right [OF H2]] kp [OF H2]
  from paint_root [OF H2, of True] obtain T3
    where a3: "assign T2 (Some g) (\<lambda>n. n\<lparr>color := True\<rparr>) = Some T3"
      and r3: "replaces T2 T3 sl (Fork g gc (Fork u False ul uk uv ur) gk gv (Fork p False pl pk pv pr))
                 (Fork g True (Fork u False ul uk uv ur) gk gv (Fork p False pl pk pv pr))"
    by blast
  note H3 = replaces_hangs [OF r3]
  note n3 = hangs_node [OF H3] hangs_node [OF hangs_right [OF H3]] kp [OF H3]
  have "fix_right T (Some k) = Some (T3, Some g)"
    by (simp add: fix_right_def attr_Some n0 a1 n1 a2 n2 a3 n3)
  moreover have "replaces T T3 sl (Fork g gc (Fork u True ul uk uv ur) gk gv (Fork p pc pl pk pv pr))
             (Fork g True (Fork u False ul uk uv ur) gk gv (Fork p False pl pk pv pr))"
    using r1 r2 r3 by (blast intro: replaces_trans)
  ultimately show ?thesis by blast
qed

lemma hangs_shaped: "hangs T sl G \<Longrightarrow> shaped (heap T) (map_option fst sl) G"
  by (simp add: hangs_def)

lemma hangs_distinct: "hangs T sl G \<Longrightarrow> distinct (addrs G)"
  by (simp add: hangs_def)

lemma uncle_color_left:
  assumes H: "hangs T sl (Fork g gc U gk gv P)"
  shows "attr color T (ptr U) = Some (red_of U)"
  using attr_color_ptr [OF hangs_shaped [OF hangs_left [OF H]] hangs_nil [OF H]] by simp

lemma fix_right_line:
  assumes H: "hangs T sl (Fork g gc U gk gv (Fork p pc pl pk pv (Fork k kc kl kk kv kr)))"
    and U: "\<not> red_of U"
  shows "\<exists>T'. fix_right T (Some k) = Some (T', Some k) \<and>
           replaces T T' sl (Fork g gc U gk gv (Fork p pc pl pk pv (Fork k kc kl kk kv kr)))
             (Fork p False (Fork g True U gk gv pl) pk pv (Fork k kc kl kk kv kr))"
proof -
  let ?K = "Fork k kc kl kk kv kr"
  have kp: "parent (heap T' k) = Some p"
    if "hangs T' sl (Fork g gc' U gk gv (Fork p pc' pl pk pv ?K))" for T' gc' pc'
    using hangs_node [OF hangs_right [OF hangs_right [OF that]]] by simp
  have kl: "Some k \<noteq> ptr pl"
  proof -
    from hangs_distinct [OF H] have "k \<notin> set (addrs pl)" by auto
    moreover from hangs_shaped [OF H] have "k \<noteq> 0" "shaped (heap T) (Some p) pl" by simp_all
    ultimately show ?thesis using shaped_ptr_notin by metis
  qed
  note n0 = hangs_node [OF H] hangs_node [OF hangs_right [OF H]] kp [OF H] uncle_color_left [OF H]
  from paint_right_child [OF H, of False] obtain T1
    where a1: "assign T (Some p) (\<lambda>n. n\<lparr>color := False\<rparr>) = Some T1"
      and r1: "replaces T T1 sl (Fork g gc U gk gv (Fork p pc pl pk pv ?K))
                 (Fork g gc U gk gv (Fork p False pl pk pv ?K))"
    by blast
  note H1 = replaces_hangs [OF r1]
  note n1 = hangs_node [OF H1] hangs_node [OF hangs_right [OF H1]] kp [OF H1]
  from paint_root [OF H1, of True] obtain T2
    where a2: "assign T1 (Some g) (\<lambda>n. n\<lparr>color := True\<rparr>) = Some T2"
      and r2: "replaces T1 T2 sl (Fork g gc U gk gv (Fork p False pl pk pv ?K))
                 (Fork g True U gk gv (Fork p False pl pk pv ?K))"
    by blast
  note H2 = replaces_hangs [OF r2]
  note n2 = hangs_node [OF H2] hangs_node [OF hangs_right [OF H2]] kp [OF H2]
  from left_rotate_root [OF H2] obtain T3
    where a3: "left_rotate T2 (Some g) = Some T3"
      and r3: "replaces T2 T3 sl (Fork g True U gk gv (Fork p False pl pk pv ?K))
                 (Fork p False (Fork g True U gk gv pl) pk pv ?K)"
    by blast
  have "fix_right T (Some k) = Some (T3, Some k)"
    using U kl by (simp add: fix_right_def attr_Some n0 a1 n1 a2 n2 a3)
  moreover have "replaces T T3 sl (Fork g gc U gk gv (Fork p pc pl pk pv ?K))
             (Fork p False (Fork g True U gk gv pl) pk pv ?K)"
    using r1 r2 r3 by (blast intro: replaces_trans)
  ultimately show ?thesis by blast
qed

lemma rotate_right_child_right:
  assumes H: "hangs T sl (Fork a c l k v (Fork x cx (Fork y cy C ky vy B) kx vx A))"
  shows "\<exists>T'. right_rotate T (Some x) = Some T' \<and>
           replaces T T' sl (Fork a c l k v (Fork x cx (Fork y cy C ky vy B) kx vx A))
             (Fork a c l k v (Fork y cy C ky vy (Fork x cx B kx vx A)))"
  using right_rotate_root [OF hangs_right [OF H]] replaces_right [OF H] by blast

lemma fix_right_triangle:
  assumes H: "hangs T sl (Fork g gc U gk gv (Fork p pc (Fork k kc kl kk kv kr) pk pv pr))"
    and U: "\<not> red_of U"
  shows "\<exists>T'. fix_right T (Some k) = Some (T', Some p) \<and>
           replaces T T' sl (Fork g gc U gk gv (Fork p pc (Fork k kc kl kk kv kr) pk pv pr))
             (Fork k False (Fork g True U gk gv kl) kk kv (Fork p pc kr pk pv pr))"
proof -
  let ?G = "Fork g gc U gk gv (Fork p pc (Fork k kc kl kk kv kr) pk pv pr)"
  note n0 = hangs_node [OF H] hangs_node [OF hangs_right [OF H]]
    hangs_node [OF hangs_left [OF hangs_right [OF H]]] uncle_color_left [OF H]
  from rotate_right_child_right [OF H] obtain T1
    where a1: "right_rotate T (Some p) = Some T1"
      and r1: "replaces T T1 sl ?G (Fork g gc U gk gv (Fork k kc kl kk kv (Fork p pc kr pk pv pr)))"
    by blast
  note H1 = replaces_hangs [OF r1]
  note n1 = hangs_node [OF H1] hangs_node [OF hangs_right [OF H1]]
    hangs_node [OF hangs_right [OF hangs_right [OF H1]]]
  from paint_right_child [OF H1, of False] obtain T2
    where a2: "assign T1 (Some k) (\<lambda>n. n\<lparr>color := False\<rparr>) = Some T2"
      and r2: "replaces T1 T2 sl (Fork g gc U gk gv (Fork k kc kl kk kv (Fork p pc kr pk pv pr)))
                 (Fork g gc U gk gv (Fork k False kl kk kv (Fork p pc kr pk pv pr)))"
    by blast
  note H2 = replaces_hangs [OF r2]
  note n2 = hangs_node [OF H2] hangs_node [OF hangs_right [OF H2]]
    hangs_node [OF hangs_right [OF hangs_right [OF H2]]]
  from paint_root [OF H2, of True] obtain T3
    where a3: "assign T2 (Some g) (\<lambda>n. n\<lparr>color := True\<rparr>) = Some T3"
      and r3: "replaces T2 T3 sl (Fork g gc U gk gv (Fork k False kl kk kv (Fork p pc kr pk pv pr)))
                 (Fork g True U gk gv (Fork k False kl kk kv (Fork p pc kr pk pv pr)))"
    by blast
  note H3 = replaces_hangs [OF r3]
  note n3 = hangs_node [OF H3] hangs_node [OF hangs_right [OF H3]]
    hangs_node [OF hangs_right [OF hangs_right [OF H3]]]
  from left_rotate_root [OF H3] obtain T4
    where a4: "left_rotate T3 (Some g) = Some T4"
      and r4: "replaces T3 T4 sl (Fork g True U gk gv (Fork k False kl kk kv (Fork p pc kr pk pv pr)))
                 (Fork k False (Fork g True U gk gv kl) kk kv (Fork p pc kr pk pv pr))"
    by blast
  have "fix_right T (Some k) = Some (T4, Some p)"
    using U by (simp add: fix_right_def attr_Some n0 a1 n1 a2 n2 a3 n3 a4)
  moreover have "replaces T T4 sl ?G
             (Fork k False (Fork g True U gk gv kl) kk kv (Fork p pc kr pk pv pr))"
    using r1 r2 r3 r4 by (blast intro: replaces_trans)
  ultimately show ?thesis by blast
qed

lemma uncle_color_right:
  assumes H: "hangs T sl (Fork g gc P gk gv U)"
  shows "attr color T (ptr U) = Some (red_of U)"
  using attr_color_ptr [OF hangs_shaped [OF hangs_right [OF H]] hangs_nil [OF H]] by simp

lemma fix_left_red_uncle:
  assumes H: "hangs T sl (Fork g gc (Fork p pc pl pk pv pr) gk gv (Fork u True ur uk uv ul))"
    and k: "child_of k (Fork p pc pl pk pv pr)"
  shows "\<exists>T'. fix_left T (Some k) = Some (T', Some g) \<and>
           replaces T T' sl (Fork g gc (Fork p pc pl pk pv pr) gk gv (Fork u True ur uk uv ul))
             (Fork g True (Fork p False pl pk pv pr) gk gv (Fork u False ur uk uv ul))"
proof -
  let ?par = "map_option fst sl"
  have kp: "parent (heap T' k) = Some p"
    if "hangs T' sl (Fork g gc' (Fork p pc' pl pk pv pr) gk gv U)" for T' gc' U pc'
    using child_parent [OF hangs_left [OF that] k] .
  note n0 = hangs_node [OF H] hangs_node [OF hangs_right [OF H]] hangs_node [OF hangs_left [OF H]] kp [OF H]
  from paint_right_child [OF H, of False] obtain T1
    where a1: "assign T (Some u) (\<lambda>n. n\<lparr>color := False\<rparr>) = Some T1"
      and r1: "replaces T T1 sl (Fork g gc (Fork p pc pl pk pv pr) gk gv (Fork u True ur uk uv ul))
                 (Fork g gc (Fork p pc pl pk pv pr) gk gv (Fork u False ur uk uv ul))"
    by blast
  note H1 = replaces_hangs [OF r1]
  note n1 = hangs_node [OF H1] hangs_node [OF hangs_left [OF H1]] kp [OF H1]
  from paint_left_child [OF H1, of False] obtain T2
    where a2: "assign T1 (Some p) (\<lambda>n. n\<lparr>color := False\<rparr>) = Some T2"
      and r2: "replaces T1 T2 sl (Fork g gc (Fork p pc pl pk pv pr) gk gv (Fork u False ur uk uv ul))
                 (Fork g gc (Fork p False pl pk pv pr) gk gv (Fork u False ur uk uv ul))"
    by blast
  note H2 = replaces_hangs [OF r2]
  note n2 = hangs_node [OF H2] hangs_node [OF hangs_left [OF H2]] kp [OF H2]
  from paint_root [OF H2, of True] obtain T3
    where a3: "assign T2 (Some g) (\<lambda>n. n\<lparr>color := True\<rparr>) = Some T3"
      and r3: "replaces T2 T3 sl (Fork g gc (Fork p False pl pk pv pr) gk gv (Fork u False ur uk uv ul))
                 (Fork g True (Fork p False pl pk pv pr) gk gv (Fork u False ur uk uv ul))"
    by blast
  note H3 = replaces_hangs [OF r3]
  note n3 = hangs_node [OF H3] hangs_node [OF hangs_left [OF H3]] kp [OF H3]
  have "fix_left T (Some k) = Some (T3, Some g)"
    by (simp add: fix_left_def attr_Some n0 a1 n1 a2 n2 a3 n3)
  moreover have "replaces T T3 sl (Fork g gc (Fork p pc pl pk pv pr) gk gv (Fork u True ur uk uv ul))
             (Fork g True (Fork p False pl pk pv pr) gk gv (Fork u False ur uk uv ul))"
    using r1 r2 r3 by (blast intro: replaces_trans)
  ultimately show ?thesis by blast
qed

lemma fix_left_line:
  assumes H: "hangs T sl (Fork g gc (Fork p pc (Fork k kc kr kk kv kl) pk pv pr) gk gv U)"
    and U: "\<not> red_of U"
  shows "\<exists>T'. fix_left T (Some k) = Some (T', Some k) \<and>
           replaces T T' sl (Fork g gc (Fork p pc (Fork k kc kr kk kv kl) pk pv pr) gk gv U)
             (Fork p False (Fork k kc kr kk kv kl) pk pv (Fork g True pr gk gv U))"
proof -
  let ?K = "Fork k kc kr kk kv kl"
  have kp: "parent (heap T' k) = Some p"
    if "hangs T' sl (Fork g gc' (Fork p pc' ?K pk pv pr) gk gv U)" for T' gc' pc'
    using hangs_node [OF hangs_left [OF hangs_left [OF that]]] by simp
  have kl: "Some k \<noteq> ptr pr"
  proof -
    from hangs_distinct [OF H] have "k \<notin> set (addrs pr)" by auto
    moreover from hangs_shaped [OF H] have "k \<noteq> 0" "shaped (heap T) (Some p) pr" by simp_all
    ultimately show ?thesis using shaped_ptr_notin by metis
  qed
  note n0 = hangs_node [OF H] hangs_node [OF hangs_left [OF H]] kp [OF H] uncle_color_right [OF H]
  from paint_left_child [OF H, of False] obtain T1
    where a1: "assign T (Some p) (\<lambda>n. n\<lparr>color := False\<rparr>) = Some T1"
      and r1: "replaces T T1 sl (Fork g gc (Fork p pc ?K pk pv pr) gk gv U)
                 (Fork g gc (Fork p False ?K pk pv pr) gk gv U)"
    by blast
  note H1 = replaces_hangs [OF r1]
  note n1 = hangs_node [OF H1] hangs_node [OF hangs_left [OF H1]] kp [OF H1]
  from paint_root [OF H1, of True] obtain T2
    where a2: "assign T1 (Some g) (\<lambda>n. n\<lparr>color := True\<rparr>) = Some T2"
      and r2: "replaces T1 T2 sl (Fork g gc (Fork p False ?K pk pv pr) gk gv U)
                 (Fork g True (Fork p False ?K pk pv pr) gk gv U)"
    by blast
  note H2 = replaces_hangs [OF r2]
  note n2 = hangs_node [OF H2] hangs_node [OF hangs_left [OF H2]] kp [OF H2]
  from right_rotate_root [OF H2] obtain T3
    where a3: "right_rotate T2 (Some g) = Some T3"
      and r3: "replaces T2 T3 sl (Fork g True (Fork p False ?K pk pv pr) gk gv U)
                 (Fork p False ?K pk pv (Fork g True pr gk gv U))"
    by blast
  have "fix_left T (Some k) = Some (T3, Some k)"
    using U kl by (simp add: fix_left_def attr_Some n0 a1 n1 a2 n2 a3)
  moreover have "replaces T T3 sl (Fork g gc (Fork p pc ?K pk pv pr) gk gv U)
             (Fork p False ?K pk pv (Fork g True pr gk gv U))"
    using r1 r2 r3 by (blast intro: replaces_trans)
  ultimately show ?thesis by blast
qed

lemma rotate_left_child_left:
  assumes H: "hangs T sl (Fork a c (Fork x cx A kx vx (Fork y cy B ky vy C)) k v l)"
  shows "\<exists>T'. left_rotate T (Some x) = Some T' \<and>
           replaces T T' sl (Fork a c (Fork x cx A kx vx (Fork y cy B ky vy C)) k v l)
             (Fork a c (Fork y cy (Fork x cx A kx vx B) ky vy C) k v l)"
  using left_rotate_root [OF hangs_left [OF H]] replaces_left [OF H] by blast

lemma fix_left_triangle:
  assumes H: "hangs T sl (Fork g gc (Fork p pc pl pk pv (Fork k kc kr kk kv kl)) gk gv U)"
    and U: "\<not> red_of U"
  shows "\<exists>T'. fix_left T (Some k) = Some (T', Some p) \<and>
           replaces T T' sl (Fork g gc (Fork p pc pl pk pv (Fork k kc kr kk kv kl)) gk gv U)
             (Fork k False (Fork p pc pl pk pv kr) kk kv (Fork g True kl gk gv U))"
proof -
  let ?G = "Fork g gc (Fork p pc pl pk pv (Fork k kc kr kk kv kl)) gk gv U"
  note n0 = hangs_node [OF H] hangs_node [OF hangs_left [OF H]]
    hangs_node [OF hangs_right [OF hangs_left [OF H]]] uncle_color_right [OF H]
  from rotate_left_child_left [OF H] obtain T1
    where a1: "left_rotate T (Some p) = Some T1"
      and r1: "replaces T T1 sl ?G (Fork g gc (Fork k kc (Fork p pc pl pk pv kr) kk kv kl) gk gv U)"
    by blast
  note H1 = replaces_hangs [OF r1]
  note n1 = hangs_node [OF H1] hangs_node [OF hangs_left [OF H1]]
    hangs_node [OF hangs_left [OF hangs_left [OF H1]]]
  from paint_left_child [OF H1, of False] obtain T2
    where a2: "assign T1 (Some k) (\<lambda>n. n\<lparr>color := False\<rparr>) = Some T2"
      and r2: "replaces T1 T2 sl (Fork g gc (Fork k kc (Fork p pc pl pk pv kr) kk kv kl) gk gv U)
                 (Fork g gc (Fork k False (Fork p pc pl pk pv kr) kk kv kl) gk gv U)"
    by blast
  note H2 = replaces_hangs [OF r2]
  note n2 = hangs_node [OF H2] hangs_node [OF hangs_left [OF H2]]
    hangs_node [OF hangs_left [OF hangs_left [OF H2]]]
  from paint_root [OF H2, of True] obtain T3
    where a3: "assign T2 (Some g) (\<lambda>n. n\<lparr>color := True\<rparr>) = Some T3"
      and r3: "replaces T2 T3 sl (Fork g gc (Fork k False (Fork p pc pl pk pv kr) kk kv kl) gk gv U)
                 (Fork g True (Fork k False (Fork p pc pl pk pv kr) kk kv kl) gk gv U)"
    by blast
  note H3 = replaces_hangs [OF r3]
  note n3 = hangs_node [OF H3] hangs_node [OF hangs_left [OF H3]]
    hangs_node [OF hangs_left [OF hangs_left [OF H3]]]
  from right_rotate_root [OF H3] obtain T4
    where a4: "right_rotate T3 (Some g) = Some T4"
      and r4: "replaces T3 T4 sl (Fork g True (Fork k False (Fork p pc pl pk pv kr) kk kv kl) gk gv U)
                 (Fork k False (Fork p pc pl pk pv kr) kk kv (Fork g True kl gk gv U))"
    by blast
  have "fix_left T (Some k) = Some (T4, Some p)"
    using U by (simp add: fix_left_def attr_Some n0 a1 n1 a2 n2 a3 n3 a4)
  moreover have "replaces T T4 sl ?G
             (Fork k False (Fork p pc pl pk pv kr) kk kv (Fork g True kl gk gv U))"
    using r1 r2 r3 r4 by (blast intro: replaces_trans)
  ultimately show ?thesis by blast
qed

lemma ppar_hole: "map_option fst (hole_of fs) = ppar fs"
  by (cases fs rule: hole_of.cases) simp_all

lemma tree_of_hangs:
  assumes T: "tree_of T (plug G fs)"
  shows "hangs T (hole_of fs) G"
proof -
  let ?h = "heap T"
  from T have sh: "shaped ?h (ppar fs) G" and cx: "ctx ?h (ptr G) fs"
    and d: "distinct (addrs G @ caddrs fs)" and rt: "root T = ptr (plug G fs)"
    and nil: "?h 0 = Node None None False"
    by (simp_all add: tree_of_def shaped_plug distinct_addrs_plug)
  from sh have G0: "0 \<notin> set (addrs G)" by (rule shaped_nonzero)
  show ?thesis
  proof (cases fs rule: hole_of.cases)
    case 1
    with sh d rt nil show ?thesis by (simp add: hangs_def)
  next
    case (2 dd a c k v s fs')
    from cx 2 have a0: "a \<noteq> 0" and shs: "shaped ?h (Some a) s"
      and l: "left (?h a) = (if dd = Lft then ptr G else ptr s)"
      and r: "right (?h a) = (if dd = Lft then ptr s else ptr G)"
      by simp_all
    have ns: "ptr s \<noteq> Some b" if "b \<in> set (addrs G)" for b
    proof -
      from that d 2 have "b \<notin> set (addrs s)" by auto
      moreover from that G0 have "b \<noteq> 0" by (cases "b = 0") auto
      ultimately show ?thesis using shs by (intro shaped_ptr_notin)
    qed
    from d 2 have "a \<notin> set (addrs G)" by auto
    with sh d nil a0 l r ns 2 show ?thesis
      by (cases dd) (simp_all add: hangs_def ppar_hole)
  qed
qed

lemma tree_of_replace:
  assumes T: "tree_of T (plug G fs)" and R: "replaces T T' (hole_of fs) G S"
  shows "tree_of T' (plug S fs) \<and> fresh T' = fresh T"
proof -
  let ?h = "heap T" and ?h' = "heap T'"
  from T have cx: "ctx ?h (ptr G) fs"
    and d: "distinct (addrs G @ caddrs fs)" and rt: "root T = ptr (plug G fs)"
    and bd: "\<forall>a \<in> set (addrs G @ caddrs fs). a < fresh T" and f0: "0 < fresh T"
    by (simp_all add: tree_of_def shaped_plug distinct_addrs_plug set_addrs_plug)
  from R have H': "hangs T' (hole_of fs) S" and m: "mset (addrs S) = mset (addrs G)"
    and fr: "fresh T' = fresh T"
    and out: "\<And>b. b \<notin> set (addrs G) \<Longrightarrow> \<forall>dd. hole_of fs \<noteq> Some (b, dd) \<Longrightarrow> ?h' b = ?h b"
    by (simp_all add: replaces_def)
  from m have s: "set (addrs S) = set (addrs G)" by (metis set_mset_mset)
  from H' have sh': "shaped ?h' (ppar fs) S" and nil': "?h' 0 = Node None None False"
    by (simp_all add: hangs_def ppar_hole)
  from m d have d': "distinct (addrs S @ caddrs fs)"
    by (metis distinct_append s mset_eq_imp_distinct_iff)
  have cx': "ctx ?h' (ptr S) fs \<and> root T' = ptr (plug S fs)"
  proof (cases fs rule: hole_of.cases)
    case 1
    with H' show ?thesis by (simp add: hangs_def)
  next
    case (2 dd a c k v s fs')
    from R 2 have ha: "dd = Lft \<longrightarrow> ?h' a = (?h a)\<lparr>left := ptr S\<rparr>"
      "dd = Rgt \<longrightarrow> ?h' a = (?h a)\<lparr>right := ptr S\<rparr>" and rt': "root T' = root T"
      by (simp_all add: replaces_def)
    from d 2 have da: "a \<notin> set (addrs s)" "a \<notin> set (caddrs fs')"
      "set (addrs G) \<inter> set (addrs s) = {}" "set (addrs G) \<inter> set (caddrs fs') = {}"
      by auto
    have same: "?h' b = ?h b" if "b \<in> set (addrs s) \<or> b \<in> set (caddrs fs')" for b
      using that da 2 by (intro out) auto
    from cx 2 have "shaped ?h (Some a) s" "ctx ?h (Some a) fs'" by simp_all
    then have "shaped ?h' (Some a) s" "ctx ?h' (Some a) fs'"
      using same by (auto intro: shaped_transfer ctx_transfer)
    moreover from cx 2 have "a \<noteq> 0"
      "?h a = \<lparr>key = Some k, val = Some v,
             left = (if dd = Lft then ptr G else ptr s), right = (if dd = Lft then ptr s else ptr G),
             parent = ppar fs', color = c\<rparr>"
      by simp_all
    moreover have "ptr (plug S fs) = ptr (plug G fs)"
      using 2 by (intro ptr_plug) simp
    ultimately show ?thesis using ha rt rt' 2 by (cases dd) simp_all
  qed
  have "\<forall>a \<in> set (addrs S @ caddrs fs). a < fresh T'"
    using bd s fr by simp
  with sh' cx' d' f0 fr nil' show ?thesis
    by (simp add: tree_of_def shaped_plug distinct_addrs_plug set_addrs_plug)
qed

lemma paint_black_root:
  assumes T: "tree_of T W"
  shows "\<exists>T'. assign T (root T) (\<lambda>n. n\<lparr>color := False\<rparr>) = Some T' \<and>
           tree_of T' (paint_black W) \<and> fresh T' = fresh T"
proof (cases W)
  case Tip
  from T have n: "heap T 0 = Node None None False" and rt: "root T = NIL"
    by (simp_all add: tree_of_def Tip)
  from n have "(heap T 0)\<lparr>color := False\<rparr> = heap T 0"
    by (simp add: Node_def)
  then have "(heap T)(0 := (heap T 0)\<lparr>color := False\<rparr>) = heap T"
    by simp
  then have "assign T (root T) (\<lambda>n. n\<lparr>color := False\<rparr>) = Some T"
    by (simp add: assign_def rt NIL_def)
  with T Tip show ?thesis by simp
next
  case (Fork a c l k v r)
  from T have rt: "root T = Some a" by (simp add: tree_of_def Fork)
  from T have "tree_of T (plug W [])" by simp
  from tree_of_hangs [OF this] have H: "hangs T None (Fork a c l k v r)" by (simp add: Fork)
  from paint_root [OF H, of False] obtain T'
    where a: "assign T (Some a) (\<lambda>n. n\<lparr>color := False\<rparr>) = Some T'"
      and r: "replaces T T' (hole_of []) (Fork a c l k v r) (Fork a False l k v r)"
    by auto
  from T have "tree_of T (plug (Fork a c l k v r) [])" by (simp add: Fork)
  from tree_of_replace [OF this r] a rt Fork show ?thesis by simp
qed

lemma astep_black_top:
  "black_top (f1 # f2 # fs) \<Longrightarrow> black_top (snd (astep t (f1 # f2 # fs)))"
  by (cases "(t, f1 # f2 # fs)" rule: astep.cases)
     (auto simp: black_top_def split: side.splits tree.splits)

lemma ptr_plug_ctx: "fs \<noteq> [] \<Longrightarrow> \<exists>b \<in> set (caddrs fs). ptr (plug t fs) = Some b"
proof (induction fs arbitrary: t)
  case Nil
  then show ?case by simp
next
  case (Cons f fs)
  obtain d a c k v s where f: "f = Frame d a c k v s" by (cases f)
  show ?case
  proof (cases "fs = []")
    case True
    then show ?thesis by (cases d) (simp_all add: f)
  next
    case False
    from Cons.IH [OF False] show ?thesis by (cases d) (auto simp: f)
  qed
qed

lemma root_other:
  assumes "tree_of T (plug t fs)" and "fs \<noteq> []" and "a \<in> set (addrs t)"
  shows "root T \<noteq> Some a"
proof -
  from ptr_plug_ctx [OF assms(2), of t] obtain b where b: "b \<in> set (caddrs fs)"
    and p: "ptr (plug t fs) = Some b" by blast
  from assms(1) have "distinct (addrs t @ caddrs fs)" and "root T = ptr (plug t fs)"
    by (simp_all add: tree_of_def distinct_addrs_plug)
  with b p assms(3) show ?thesis by auto
qed

lemma fix_insert_at_root:
  "k = root T \<Longrightarrow> fix_insert T k = assign T (root T) (\<lambda>n. n\<lparr>color := False\<rparr>)"
  by (subst fix_insert.simps) simp

lemma fix_insert_exit:
  assumes T: "tree_of T (plug (Fork k kc kl kk kv kr) fs)"
    and ex: "fs = [] \<or> (\<exists>d p pk pv ps fs'. fs = Frame d p False pk pv ps # fs')"
  shows "\<exists>T'. fix_insert T (Some k) = Some T' \<and>
           tree_of T' (paint_black (plug (Fork k kc kl kk kv kr) fs)) \<and> fresh T' = fresh T"
proof (cases fs)
  case Nil
  with T have "root T = Some k" by (simp add: tree_of_def)
  then have "fix_insert T (Some k) = assign T (root T) (\<lambda>n. n\<lparr>color := False\<rparr>)"
    by (intro fix_insert_at_root) simp
  with paint_black_root [OF T] show ?thesis by simp
next
  case (Cons f fs')
  with ex obtain d p pk pv ps where f: "f = Frame d p False pk pv ps" by auto
  have nr: "root T \<noteq> Some k"
    using T Cons by (intro root_other [of T "Fork k kc kl kk kv kr" fs]) simp_all
  from tree_of_hangs [OF T] have "parent (heap T k) = Some p"
    by (simp add: hangs_def Cons f)
  moreover have "color (heap T p) = False"
  proof (cases d)
    case Lft
    with T have "tree_of T (plug (Fork p False (Fork k kc kl kk kv kr) pk pv ps) fs')"
      by (simp add: Cons f)
    from hangs_node [OF tree_of_hangs [OF this]] show ?thesis by simp
  next
    case Rgt
    with T have "tree_of T (plug (Fork p False ps pk pv (Fork k kc kl kk kv kr)) fs')"
      by (simp add: Cons f)
    from hangs_node [OF tree_of_hangs [OF this]] show ?thesis by simp
  qed
  ultimately have "fix_insert T (Some k) = assign T (root T) (\<lambda>n. n\<lparr>color := False\<rparr>)"
    using nr by (subst fix_insert.simps) (auto simp: attr_Some)
  with paint_black_root [OF T] show ?thesis by simp
qed

lemma body_right:
  assumes T: "tree_of T (plug (Fork k kc kl kk kv kr)
                 (Frame d p True pk pv ps # Frame Rgt g gc gk gv U # fs))"
  shows "parent (heap T k) = Some p \<and> parent (heap T p) = Some g \<and> color (heap T p) = True \<and>
         right (heap T g) = Some p \<and> left (heap T g) \<noteq> Some p \<and>
         (\<exists>T1 k1 c1 l1 y1 v1 r1.
            fst (astep (Fork k kc kl kk kv kr)
                   (Frame d p True pk pv ps # Frame Rgt g gc gk gv U # fs)) = Fork k1 c1 l1 y1 v1 r1 \<and>
            fix_right T (Some k) = Some (T1, Some k1) \<and>
            tree_of T1 (plug (Fork k1 c1 l1 y1 v1 r1)
              (snd (astep (Fork k kc kl kk kv kr)
                   (Frame d p True pk pv ps # Frame Rgt g gc gk gv U # fs)))) \<and>
            fresh T1 = fresh T)"
proof -
  let ?K = "Fork k kc kl kk kv kr"
  define P where "P = plug ?K [Frame d p True pk pv ps]"
  have P: "P = (case d of Lft \<Rightarrow> Fork p True ?K pk pv ps | Rgt \<Rightarrow> Fork p True ps pk pv ?K)"
    by (cases d) (simp_all add: P_def)
  from T have TG: "tree_of T (plug (Fork g gc U gk gv P) fs)"
    by (cases d) (simp_all add: P_def)
  note H = tree_of_hangs [OF TG]
  have ck: "child_of k P"
    by (cases d) (auto simp: P child_of_def)
  have Pn: "P = Fork p True (case d of Lft \<Rightarrow> ?K | Rgt \<Rightarrow> ps) pk pv (case d of Lft \<Rightarrow> ps | Rgt \<Rightarrow> ?K)"
    by (cases d) (simp_all add: P)
  from hangs_node [OF H] have hg: "right (heap T g) = Some p"
    by (simp add: Pn)
  from hangs_node [OF hangs_right [OF H [unfolded Pn]]]
  have hp: "parent (heap T p) = Some g" "color (heap T p) = True"
    by simp_all
  from child_parent [OF hangs_right [OF H [unfolded Pn]] ck [unfolded Pn]]
  have hk: "parent (heap T k) = Some p" .
  from hangs_right [OF H [unfolded Pn]] have hl: "left (heap T g) \<noteq> Some p"
    by (simp add: hangs_def)
  have "\<exists>T1 k1 c1 l1 y1 v1 r1.
            fst (astep ?K (Frame d p True pk pv ps # Frame Rgt g gc gk gv U # fs)) = Fork k1 c1 l1 y1 v1 r1 \<and>
            fix_right T (Some k) = Some (T1, Some k1) \<and>
            tree_of T1 (plug (Fork k1 c1 l1 y1 v1 r1)
              (snd (astep ?K (Frame d p True pk pv ps # Frame Rgt g gc gk gv U # fs)))) \<and>
            fresh T1 = fresh T"
  proof (cases "red_of U")
    case True
    then obtain u ul uk uv ur where U: "U = Fork u True ul uk uv ur" by (cases U) auto
    from fix_right_red_uncle [OF H [unfolded U Pn] ck [unfolded Pn]] obtain T1
      where f: "fix_right T (Some k) = Some (T1, Some g)"
        and r: "replaces T T1 (hole_of fs) (Fork g gc U gk gv P)
                  (Fork g True (Fork u False ul uk uv ur) gk gv
                     (Fork p False (case d of Lft \<Rightarrow> ?K | Rgt \<Rightarrow> ps) pk pv
                        (case d of Lft \<Rightarrow> ps | Rgt \<Rightarrow> ?K)))"
      unfolding U Pn by blast
    from tree_of_replace [OF TG r] f U show ?thesis
      by (cases d) auto
  next
    case False
    show ?thesis
    proof (cases d)
      case Rgt
      from fix_right_line [OF H [unfolded P Rgt side.case] False] obtain T1
        where f: "fix_right T (Some k) = Some (T1, Some k)"
          and r: "replaces T T1 (hole_of fs) (Fork g gc U gk gv P)
                    (Fork p False (Fork g True U gk gv ps) pk pv ?K)"
        unfolding P Rgt side.case by blast
      from tree_of_replace [OF TG r] f False Rgt show ?thesis
        by auto
    next
      case Lft
      from fix_right_triangle [OF H [unfolded P Lft side.case] False] obtain T1
        where f: "fix_right T (Some k) = Some (T1, Some p)"
          and r: "replaces T T1 (hole_of fs) (Fork g gc U gk gv P)
                    (Fork k False (Fork g True U gk gv kl) kk kv (Fork p True kr pk pv ps))"
        unfolding P Lft side.case by blast
      from tree_of_replace [OF TG r] f False Lft show ?thesis
        by auto
    qed
  qed
  with hk hp hg hl show ?thesis by blast
qed

lemma body_left:
  assumes T: "tree_of T (plug (Fork k kc kl kk kv kr)
                 (Frame d p True pk pv ps # Frame Lft g gc gk gv U # fs))"
  shows "parent (heap T k) = Some p \<and> parent (heap T p) = Some g \<and> color (heap T p) = True \<and>
         left (heap T g) = Some p \<and> right (heap T g) \<noteq> Some p \<and>
         (\<exists>T1 k1 c1 l1 y1 v1 r1.
            fst (astep (Fork k kc kl kk kv kr)
                   (Frame d p True pk pv ps # Frame Lft g gc gk gv U # fs)) = Fork k1 c1 r1 y1 v1 l1 \<and>
            fix_left T (Some k) = Some (T1, Some k1) \<and>
            tree_of T1 (plug (Fork k1 c1 r1 y1 v1 l1)
              (snd (astep (Fork k kc kl kk kv kr)
                   (Frame d p True pk pv ps # Frame Lft g gc gk gv U # fs)))) \<and>
            fresh T1 = fresh T)"
proof -
  let ?K = "Fork k kc kl kk kv kr"
  define P where "P = plug ?K [Frame d p True pk pv ps]"
  have P: "P = (case d of Rgt \<Rightarrow> Fork p True ps pk pv ?K | Lft \<Rightarrow> Fork p True ?K pk pv ps)"
    by (cases d) (simp_all add: P_def)
  from T have TG: "tree_of T (plug (Fork g gc P gk gv U) fs)"
    by (cases d) (simp_all add: P_def)
  note H = tree_of_hangs [OF TG]
  have ck: "child_of k P"
    by (cases d) (auto simp: P child_of_def)
  have Pn: "P = Fork p True (case d of Rgt \<Rightarrow> ps | Lft \<Rightarrow> ?K) pk pv (case d of Rgt \<Rightarrow> ?K | Lft \<Rightarrow> ps)"
    by (cases d) (simp_all add: P)
  from hangs_node [OF H] have hg: "left (heap T g) = Some p"
    by (simp add: Pn)
  from hangs_node [OF hangs_left [OF H [unfolded Pn]]]
  have hp: "parent (heap T p) = Some g" "color (heap T p) = True"
    by simp_all
  from child_parent [OF hangs_left [OF H [unfolded Pn]] ck [unfolded Pn]]
  have hk: "parent (heap T k) = Some p" .
  from hangs_left [OF H [unfolded Pn]] have hl: "right (heap T g) \<noteq> Some p"
    by (simp add: hangs_def)
  have "\<exists>T1 k1 c1 l1 y1 v1 r1.
            fst (astep ?K (Frame d p True pk pv ps # Frame Lft g gc gk gv U # fs)) = Fork k1 c1 r1 y1 v1 l1 \<and>
            fix_left T (Some k) = Some (T1, Some k1) \<and>
            tree_of T1 (plug (Fork k1 c1 r1 y1 v1 l1)
              (snd (astep ?K (Frame d p True pk pv ps # Frame Lft g gc gk gv U # fs)))) \<and>
            fresh T1 = fresh T"
  proof (cases "red_of U")
    case True
    then obtain u ur uk uv ul where U: "U = Fork u True ul uk uv ur" by (cases U) auto
    from fix_left_red_uncle [OF H [unfolded U Pn] ck [unfolded Pn]] obtain T1
      where f: "fix_left T (Some k) = Some (T1, Some g)"
        and r: "replaces T T1 (hole_of fs) (Fork g gc P gk gv U)
                  (Fork g True (Fork p False (case d of Rgt \<Rightarrow> ps | Lft \<Rightarrow> ?K) pk pv
                        (case d of Rgt \<Rightarrow> ?K | Lft \<Rightarrow> ps)) gk gv
                     (Fork u False ul uk uv ur))"
      unfolding U Pn by blast
    from tree_of_replace [OF TG r] f U show ?thesis
      by (cases d) auto
  next
    case False
    show ?thesis
    proof (cases d)
      case Lft
      from fix_left_line [OF H [unfolded P Lft side.case] False] obtain T1
        where f: "fix_left T (Some k) = Some (T1, Some k)"
          and r: "replaces T T1 (hole_of fs) (Fork g gc P gk gv U)
                    (Fork p False ?K pk pv (Fork g True ps gk gv U))"
        unfolding P Lft side.case by blast
      from tree_of_replace [OF TG r] f False Lft show ?thesis
        by auto
    next
      case Rgt
      from fix_left_triangle [OF H [unfolded P Rgt side.case] False] obtain T1
        where f: "fix_left T (Some k) = Some (T1, Some p)"
          and r: "replaces T T1 (hole_of fs) (Fork g gc P gk gv U)
                    (Fork k False (Fork p True ps pk pv kl) kk kv (Fork g True kr gk gv U))"
        unfolding P Rgt side.case by blast
      from tree_of_replace [OF TG r] f False Rgt show ?thesis
        by auto
    qed
  qed
  with hk hp hg hl show ?thesis by blast
qed

lemma fix_insert_sim:
  "tree_of T (plug t fs) \<Longrightarrow> t = Fork k kc kl kk kv kr \<Longrightarrow> black_top fs \<Longrightarrow>
   \<exists>T'. fix_insert T (Some k) = Some T' \<and> tree_of T' (afix t fs) \<and> fresh T' = fresh T"
proof (induction t fs arbitrary: T k kc kl kk kv kr rule: afix.induct)
  case (1 t)
  with fix_insert_exit [of T k kc kl kk kv kr "[]"] show ?case by simp
next
  case (2 t f)
  obtain d p pc pk pv ps where f: "f = Frame d p pc pk pv ps" by (cases f)
  with "2.prems"(3) have "\<not> pc" by (simp add: black_top_def)
  with fix_insert_exit [of T k kc kl kk kv kr "[f]"] "2.prems" f show ?case by simp
next
  case (3 t d p pc pk pv ps f fs)
  let ?fs = "Frame d p pc pk pv ps # f # fs"
  show ?case
  proof (cases pc)
    case False
    with fix_insert_exit [of T k kc kl kk kv kr ?fs] "3.prems" show ?thesis by simp
  next
    case True
    then have pcT: "pc = True" by simp
    obtain dg g gc gk gv U where f: "f = Frame dg g gc gk gv U" by (cases f)
    from "3.prems"(1,2) have nr: "Some k \<noteq> root T"
      using root_other [of T t ?fs k] by auto
    have step: "\<exists>T1 k1 c1 l1 y1 v1 r1.
        fst (astep t ?fs) = Fork k1 c1 l1 y1 v1 r1 \<and>
        fix_insert T (Some k) = fix_insert T1 (Some k1) \<and>
        tree_of T1 (plug (Fork k1 c1 l1 y1 v1 r1) (snd (astep t ?fs))) \<and> fresh T1 = fresh T"
    proof (cases dg)
      case Rgt
      from "3.prems"(1) have "tree_of T (plug (Fork k kc kl kk kv kr)
             (Frame d p True pk pv ps # Frame Rgt g gc gk gv U # fs))"
        by (simp only: "3.prems"(2) pcT f Rgt)
      from body_right [OF this] obtain T1 k1 c1 l1 y1 v1 r1
        where rd: "parent (heap T k) = Some p" "parent (heap T p) = Some g" "color (heap T p) = True"
            "right (heap T g) = Some p"
          and a: "fst (astep t ?fs) = Fork k1 c1 l1 y1 v1 r1"
          and b: "fix_right T (Some k) = Some (T1, Some k1)"
          and c: "tree_of T1 (plug (Fork k1 c1 l1 y1 v1 r1) (snd (astep t ?fs)))"
          and e: "fresh T1 = fresh T"
        unfolding "3.prems"(2) pcT f Rgt by blast
      have "fix_insert T (Some k) = fix_insert T1 (Some k1)"
        using nr rd b by (subst fix_insert.simps) (simp add: attr_Some fix_insert_at_root)
      with a c e show ?thesis by blast
    next
      case Lft
      from "3.prems"(1) have "tree_of T (plug (Fork k kc kl kk kv kr)
             (Frame d p True pk pv ps # Frame Lft g gc gk gv U # fs))"
        by (simp only: "3.prems"(2) pcT f Lft)
      from body_left [OF this] obtain T1 k1 c1 l1 y1 v1 r1
        where rd: "parent (heap T k) = Some p" "parent (heap T p) = Some g" "color (heap T p) = True"
            "right (heap T g) \<noteq> Some p"
          and a: "fst (astep t ?fs) = Fork k1 c1 l1 y1 v1 r1"
          and b: "fix_left T (Some k) = Some (T1, Some k1)"
          and c: "tree_of T1 (plug (Fork k1 c1 l1 y1 v1 r1) (snd (astep t ?fs)))"
          and e: "fresh T1 = fresh T"
        unfolding "3.prems"(2) pcT f Lft by blast
      have "fix_insert T (Some k) = fix_insert T1 (Some k1)"
        using nr rd b by (subst fix_insert.simps) (auto simp: attr_Some fix_insert_at_root)
      with a c e show ?thesis by blast
    qed
    then obtain T1 k1 c1 l1 y1 v1 r1
      where a: "fst (astep t ?fs) = Fork k1 c1 l1 y1 v1 r1"
        and b: "fix_insert T (Some k) = fix_insert T1 (Some k1)"
        and c: "tree_of T1 (plug (Fork k1 c1 l1 y1 v1 r1) (snd (astep t ?fs)))"
        and e: "fresh T1 = fresh T"
      by blast
    from "3.prems"(3) have bt: "black_top (snd (astep t ?fs))"
      by (rule astep_black_top)
    from "3.IH" [OF True c [folded a] a bt] b e True show ?thesis
      by simp
  qed
qed

lemma plug_path_to: "plug (fst (path_to k t fs)) (snd (path_to k t fs)) = plug t fs"
  by (induction t arbitrary: fs) auto

lemma path_to_key:
  "path_to k t fs = (Fork x c l k' v r, fs') \<Longrightarrow> k' = k"
  by (induction t arbitrary: fs) (auto split: if_splits)

lemma path_to_top:
  "path_to k t fs = (t', fs') \<Longrightarrow>
   fs' = fs \<or> (\<exists>d y c yk v s rest. fs' = Frame d y c yk v s # rest \<and> (d = Lft \<longleftrightarrow> k < yk))"
proof (induction t arbitrary: fs)
  case Tip
  then show ?case by simp
next
  case (Fork a c l k' v r)
  show ?case
  proof (cases "k < k'")
    case True
    with Fork.prems have "path_to k l (Frame Lft a c k' v r # fs) = (t', fs')" by simp
    from Fork.IH(1) [OF this] True show ?thesis by auto
  next
    case False
    show ?thesis
    proof (cases "k > k'")
      case True
      with False Fork.prems have "path_to k r (Frame Rgt a c k' v l # fs) = (t', fs')" by simp
      from Fork.IH(2) [OF this] False show ?thesis by auto
    next
      case nb: False
      with False Fork.prems show ?thesis by simp
    qed
  qed
qed

lemma path_to_last:
  "path_to k t fs = (t', fs') \<Longrightarrow> fs' \<noteq> [] \<Longrightarrow>
   frame_red (last fs') = (if fs = [] then red_of t else frame_red (last fs))"
proof (induction t arbitrary: fs)
  case Tip
  then show ?case by auto
next
  case (Fork a c l k' v r)
  show ?case
  proof (cases "k < k'")
    case True
    with Fork.prems have "path_to k l (Frame Lft a c k' v r # fs) = (t', fs')" by simp
    from Fork.IH(1) [OF this Fork.prems(2)] show ?thesis by simp
  next
    case False
    show ?thesis
    proof (cases "k > k'")
      case True
      with False Fork.prems have "path_to k r (Frame Rgt a c k' v l # fs) = (t', fs')" by simp
      from Fork.IH(2) [OF this Fork.prems(2)] show ?thesis by simp
    next
      case nb: False
      with False Fork.prems show ?thesis by auto
    qed
  qed
qed

lemma descend_sim:
  "shaped (heap T) (ppar fs) t \<Longrightarrow>
   descend T k (ppar fs) (ptr t) =
     Some (case path_to k t fs of
             (Tip, fs') \<Rightarrow> Inr (ppar fs')
           | (Fork a c l k' v r, fs') \<Rightarrow> Inl (Some a))"
proof (induction t arbitrary: fs)
  case Tip
  show ?case by (subst descend.simps) simp
next
  case (Fork a c l k' v r)
  from Fork.prems have a0: "a \<noteq> 0"
    and ha: "heap T a = \<lparr>key = Some k', val = Some v, left = ptr l, right = ptr r,
                          parent = ppar fs, color = c\<rparr>"
    and shl: "shaped (heap T) (ppar (Frame Lft a c k' v r # fs)) l"
    and shr: "shaped (heap T) (ppar (Frame Rgt a c k' v l # fs)) r"
    by simp_all
  from a0 have nn: "Some a \<noteq> NIL" by (simp add: NIL_def)
  show ?case
  proof (cases "k < k'")
    case True
    with Fork.IH(1) [OF shl] nn ha show ?thesis
      by (subst descend.simps) (simp add: attr_Some)
  next
    case False
    show ?thesis
    proof (cases "k > k'")
      case True
      with False Fork.IH(2) [OF shr] nn ha show ?thesis
        by (subst descend.simps) (simp add: attr_Some)
    next
      case nb: False
      with False nn ha show ?thesis
        by (subst descend.simps) (simp add: attr_Some)
    qed
  qed
qed

lemma set_val_root:
  assumes H: "hangs T sl (Fork a c l k v r)"
  shows "\<exists>T'. assign T (Some a) (\<lambda>n. n\<lparr>val := Some v'\<rparr>) = Some T' \<and>
           replaces T T' sl (Fork a c l k v r) (Fork a c l k v' r)"
proof -
  let ?h = "heap T"
  define T' where "T' = T\<lparr>heap := ?h(a := (?h a)\<lparr>val := Some v'\<rparr>)\<rparr>"
  have as: "assign T (Some a) (\<lambda>n. n\<lparr>val := Some v'\<rparr>) = Some T'"
    by (simp add: assign_def T'_def)
  from H have d: "distinct (addrs (Fork a c l k v r))" and a0: "a \<noteq> 0"
    and sh: "shaped ?h (map_option fst sl) (Fork a c l k v r)"
    and nil: "?h 0 = Node None None False"
    by (simp_all add: hangs_def)
  from d have al: "a \<notin> set (addrs l)" and ar: "a \<notin> set (addrs r)" by auto
  from sh al ar have sh': "shaped (heap T') (map_option fst sl) (Fork a c l k v' r)"
    by (simp add: T'_def shaped_upd_other)
  have sa: "\<And>gg dd. sl = Some (gg, dd) \<Longrightarrow> gg \<noteq> a"
    using H by (auto simp: hangs_def)
  have "hangs T' sl (Fork a c l k v' r)"
  proof (cases sl)
    case None
    with H sh' nil a0 show ?thesis by (simp add: hangs_def T'_def)
  next
    case (Some p)
    obtain gg dd where p: "p = (gg, dd)" by (cases p)
    from sa Some p have "gg \<noteq> a" by simp
    with H sh' nil a0 Some p show ?thesis
      by (simp add: hangs_def T'_def)
  qed
  moreover have "case sl of None \<Rightarrow> True
      | Some (gg, dd) \<Rightarrow> root T' = root T \<and>
          (dd = Lft \<longrightarrow> heap T' gg = (?h gg)\<lparr>left := Some a\<rparr>) \<and>
          (dd = Rgt \<longrightarrow> heap T' gg = (?h gg)\<lparr>right := Some a\<rparr>)"
  proof (cases sl)
    case None
    then show ?thesis by simp
  next
    case (Some p)
    obtain gg dd where p: "p = (gg, dd)" by (cases p)
    from sa Some p have "gg \<noteq> a" by simp
    moreover from H Some p have "dd = Lft \<longrightarrow> left (?h gg) = Some a"
      "dd = Rgt \<longrightarrow> right (?h gg) = Some a"
      by (simp_all add: hangs_def)
    ultimately show ?thesis using Some p by (simp add: T'_def)
  qed
  ultimately have "replaces T T' sl (Fork a c l k v r) (Fork a c l k v' r)"
    unfolding replaces_def by (cases sl) (auto simp: T'_def)
  with as show ?thesis by blast
qed

lemma tree_of_alloc:
  assumes T: "tree_of T t"
  shows "tree_of (T\<lparr>heap := (heap T)(fresh T := n), fresh := Suc (fresh T)\<rparr>) t"
proof -
  from T have b: "\<forall>a \<in> set (addrs t). a < fresh T" and f0: "0 < fresh T"
    by (simp_all add: tree_of_def)
  then have "fresh T \<notin> set (addrs t)" by auto
  with T f0 b show ?thesis
    by (auto simp: tree_of_def shaped_upd_other)
qed

lemma attach:
  assumes T: "tree_of T (plug Tip fs)" and a: "a = fresh T"
    and ha: "heap T' a = \<lparr>key = Some k, val = Some v, left = NIL, right = NIL,
                          parent = ppar fs, color = c\<rparr>"
    and out: "\<And>b. b \<noteq> a \<Longrightarrow> (\<forall>d. hole_of fs \<noteq> Some (b, d)) \<Longrightarrow> heap T' b = heap T b"
    and top: "\<And>y d. hole_of fs = Some (y, d) \<Longrightarrow>
        (d = Lft \<longrightarrow> heap T' y = (heap T y)\<lparr>left := Some a\<rparr>) \<and>
        (d = Rgt \<longrightarrow> heap T' y = (heap T y)\<lparr>right := Some a\<rparr>)"
    and rt: "root T' = (if fs = [] then Some a else root T)"
    and fr: "fresh T' = Suc (fresh T)"
  shows "tree_of T' (plug (Fork a c Tip k v Tip) fs)"
proof -
  let ?h = "heap T" and ?h' = "heap T'"
  let ?N = "Fork a c Tip k v Tip"
  from T have cx: "ctx ?h NIL fs" and d: "distinct (caddrs fs)"
    and bd: "\<forall>b \<in> set (caddrs fs). b < fresh T" and f0: "0 < fresh T"
    and rT: "root T = ptr (plug Tip fs)" and nil: "?h 0 = Node None None False"
    by (simp_all add: tree_of_def shaped_plug distinct_addrs_plug set_addrs_plug)
  from bd a have an: "a \<notin> set (caddrs fs)" by auto
  from f0 a have a0: "a \<noteq> 0" by simp
  have sh: "shaped ?h' (ppar fs) ?N" using ha a0 by simp
  have cx': "ctx ?h' (Some a) fs \<and> root T' = ptr (plug ?N fs) \<and> ?h' 0 = Node None None False"
  proof (cases fs rule: hole_of.cases)
    case 1
    with out [of 0] a0 nil rt show ?thesis by simp
  next
    case (2 dd y cy ky vy s fs')
    from top [of y dd] 2 have hy: "dd = Lft \<longrightarrow> ?h' y = (?h y)\<lparr>left := Some a\<rparr>"
      "dd = Rgt \<longrightarrow> ?h' y = (?h y)\<lparr>right := Some a\<rparr>"
      by simp_all
    from d 2 have dy: "y \<notin> set (addrs s)" "y \<notin> set (caddrs fs')" by auto
    from cx 2 have y0: "y \<noteq> 0" by simp
    have same: "?h' b = ?h b" if "b \<in> set (addrs s) \<or> b \<in> set (caddrs fs')" for b
      using that dy an 2 by (intro out) auto
    from cx 2 have "shaped ?h (Some y) s" "ctx ?h (Some y) fs'" by simp_all
    then have "shaped ?h' (Some y) s" "ctx ?h' (Some y) fs'"
      using same by (auto intro: shaped_transfer ctx_transfer)
    moreover from cx 2 have
      "?h y = \<lparr>key = Some ky, val = Some vy,
             left = (if dd = Lft then NIL else ptr s), right = (if dd = Lft then ptr s else NIL),
             parent = ppar fs', color = cy\<rparr>"
      by simp
    moreover have "ptr (plug ?N fs) = ptr (plug Tip fs)"
      using 2 by (intro ptr_plug) simp
    moreover have "?h' 0 = ?h 0" using a0 y0 2 by (intro out) auto
    ultimately show ?thesis using hy rt rT 2 y0 nil by (cases dd) simp_all
  qed
  from d an have d': "distinct (addrs ?N @ caddrs fs)" by simp
  have "\<forall>b \<in> set (addrs ?N @ caddrs fs). b < fresh T'"
    using bd a fr by auto
  with sh cx' d' fr show ?thesis
    by (simp add: tree_of_def shaped_plug distinct_addrs_plug set_addrs_plug)
qed


lemma insert_rb_sim:
  assumes T: "tree_of T t" and rb: "\<not> red_of t"
  shows "\<exists>T'. insert_rb T k v = Some T' \<and> tree_of T' (ains (fresh T) k v t) \<and>
           fresh T' = (if fst (path_to k t []) = Tip then Suc (fresh T) else fresh T)"
proof -
  define a where "a = fresh T"
  define T1 where "T1 = T\<lparr>heap := (heap T)(a := (Node (Some k) (Some v) True)\<lparr>left := NIL, right := NIL\<rparr>),
                           fresh := Suc a\<rparr>"
  obtain t' fs where pt: "path_to k t [] = (t', fs)" by (cases "path_to k t []")
  from plug_path_to [of k t "[]"] pt have pl: "plug t' fs = t" by simp
  from T have T1: "tree_of T1 t"
    unfolding T1_def a_def by (rule tree_of_alloc)
  then have "shaped (heap T1) (ppar []) t" and r1: "root T1 = ptr t"
    by (simp_all add: tree_of_def)
  from descend_sim [OF this(1), of k] pt r1
  have ds: "descend T1 k None (root T1) =
              Some (case t' of Tip \<Rightarrow> Inr (ppar fs) | Fork x c l k' v' r \<Rightarrow> Inl (Some x))"
    by (simp split: tree.splits)
  from T have f0: "0 < a" and bd: "\<forall>b \<in> set (addrs t). b < a"
    by (simp_all add: tree_of_def a_def)
  show ?thesis
  proof (cases t')
    case (Fork x c l k' v' r)
    from T pl Fork have Tx: "tree_of T (plug (Fork x c l k' v' r) fs)" by simp
    from set_val_root [OF tree_of_hangs [OF Tx], of v] obtain T'
      where as: "assign T (Some x) (\<lambda>n. n\<lparr>val := Some v\<rparr>) = Some T'"
        and r: "replaces T T' (hole_of fs) (Fork x c l k' v' r) (Fork x c l k' v r)"
      by blast
    from ds Fork as have "insert_rb T k v = Some T'"
      by (simp add: insert_rb_def Let_def T1_def a_def)
    moreover from pt Fork have "ains (fresh T) k v t = plug (Fork x c l k' v r) fs"
      by (simp add: ains_def)
    ultimately show ?thesis using tree_of_replace [OF Tx r] pt Fork by simp
  next
    case Tip
    let ?N = "Fork a True Tip k v Tip"
    from T pl Tip have Tt: "tree_of T (plug Tip fs)" by simp
    then have cx: "ctx (heap T) NIL fs" and dd: "distinct (caddrs fs)"
      and bf: "\<forall>b \<in> set (caddrs fs). b < a"
      by (simp_all add: tree_of_def shaped_plug distinct_addrs_plug set_addrs_plug a_def)
    define h3 where "h3 = (\<lambda>b.
        if b = a then \<lparr>key = Some k, val = Some v, left = NIL, right = NIL,
                       parent = ppar fs, color = True\<rparr>
        else if hole_of fs = Some (b, Lft) then (heap T b)\<lparr>left := Some a\<rparr>
        else if hole_of fs = Some (b, Rgt) then (heap T b)\<lparr>right := Some a\<rparr>
        else heap T b)"
    define T3 where "T3 = T\<lparr>heap := h3, fresh := Suc a, root := (if fs = [] then Some a else root T)\<rparr>"
    have T3: "tree_of T3 (plug ?N fs)"
    proof (rule attach [OF Tt])
      show "a = fresh T" by (simp add: a_def)
      show "heap T3 a = \<lparr>key = Some k, val = Some v, left = NIL, right = NIL,
                          parent = ppar fs, color = True\<rparr>"
        by (simp add: T3_def h3_def)
      show "heap T3 b = heap T b" if "b \<noteq> a" "\<forall>d. hole_of fs \<noteq> Some (b, d)" for b
        using that by (simp add: T3_def h3_def)
      show "(d = Lft \<longrightarrow> heap T3 y = (heap T y)\<lparr>left := Some a\<rparr>) \<and>
            (d = Rgt \<longrightarrow> heap T3 y = (heap T y)\<lparr>right := Some a\<rparr>)"
        if "hole_of fs = Some (y, d)" for y d
      proof -
        from that bf have "y \<noteq> a" by (cases fs rule: hole_of.cases) auto
        with that show ?thesis by (cases d) (simp_all add: T3_def h3_def)
      qed
      show "root T3 = (if fs = [] then Some a else root T)" by (simp add: T3_def)
      show "fresh T3 = Suc (fresh T)" by (simp add: T3_def a_def)
    qed
    define T2 where "T2 = T1\<lparr>heap := (heap T1)(a := (heap T1 a)\<lparr>parent := ppar fs\<rparr>)\<rparr>"
    have a2: "assign T1 (Some a) (\<lambda>n. n\<lparr>parent := ppar fs\<rparr>) = Some T2"
      by (simp add: assign_def T2_def)
    have link: "(if ppar fs = None then Some (T2\<lparr>root := Some a\<rparr>)
             else attr key T2 (ppar fs) \<bind> (\<lambda>yk. case yk of
                    None \<Rightarrow> None
                  | Some yk \<Rightarrow>
                      if k < yk then assign T2 (ppar fs) (\<lambda>n. n\<lparr>left := Some a\<rparr>)
                      else assign T2 (ppar fs) (\<lambda>n. n\<lparr>right := Some a\<rparr>))) = Some T3"
    proof (cases fs rule: hole_of.cases)
      case 1
      then show ?thesis
        by (auto simp: T2_def T1_def T3_def h3_def Node_def fun_eq_iff intro!: rbtree.equality)
    next
      case (2 d y c yk vy s fs')
      from bf 2 have ya: "y \<noteq> a" by auto
      from cx 2 have ky: "key (heap T y) = Some yk" by simp
      from path_to_top [OF pt] 2 have dk: "d = Lft \<longleftrightarrow> k < yk" by simp
      show ?thesis
      proof (cases d)
        case Lft
        with dk ya ky 2 show ?thesis
          by (auto simp: assign_def attr_Some T2_def T1_def T3_def h3_def Node_def fun_eq_iff
                intro!: rbtree.equality)
      next
        case Rgt
        with dk ya ky 2 show ?thesis
          by (auto simp: assign_def attr_Some T2_def T1_def T3_def h3_def Node_def fun_eq_iff
                intro!: rbtree.equality)
      qed
    qed
    have np: "attr parent T3 (Some a) = Some (ppar fs)"
      by (simp add: attr_Some T3_def h3_def)
    have ins: "insert_rb T k v =
        (if ppar fs = None then assign T3 (Some a) (\<lambda>n. n\<lparr>color := False\<rparr>)
         else attr parent T3 (ppar fs) \<bind> (\<lambda>npp. if npp = None then Some T3 else fix_insert T3 (Some a)))"
      using ds Tip a2 link np
      by (simp add: insert_rb_def Let_def T1_def [symmetric] a_def [symmetric])
    show ?thesis
    proof (cases fs)
      case Nil
      with T3 have "root T3 = Some a" by (simp add: tree_of_def)
      with paint_black_root [OF T3] Nil obtain T'
        where "assign T3 (Some a) (\<lambda>n. n\<lparr>color := False\<rparr>) = Some T'"
          and "tree_of T' (Fork a False Tip k v Tip)" and "fresh T' = fresh T3"
        by auto
      moreover from pt Tip Nil have "ains (fresh T) k v t = Fork a False Tip k v Tip"
        by (simp add: ains_def a_def)
      ultimately show ?thesis using ins Nil pt Tip by (simp add: T3_def a_def)
    next
      case (Cons f fs')
      obtain d y c yk vy s where f: "f = Frame d y c yk vy s" by (cases f)
      from T3 Cons f have "ctx (heap T3) (Some a) (Frame d y c yk vy s # fs')"
        by (simp add: tree_of_def shaped_plug)
      then have py: "parent (heap T3 y) = ppar fs'" by simp
      show ?thesis
      proof (cases fs')
        case Nil
        with pt Tip Cons have "ains (fresh T) k v t = plug ?N fs"
          by (simp add: ains_def a_def)
        moreover from ins Cons f py Nil have "insert_rb T k v = Some T3"
          by (simp add: attr_Some)
        ultimately show ?thesis using T3 pt Tip by (simp add: T3_def a_def)
      next
        case (Cons f' fs'')
        obtain d' y' c' yk' vy' s' where f': "f' = Frame d' y' c' yk' vy' s'" by (cases f')
        from path_to_last [OF pt] \<open>fs = f # fs'\<close> rb have bt: "black_top fs"
          by (simp add: black_top_def)
        from fix_insert_sim [OF T3 refl bt] obtain T'
          where "fix_insert T3 (Some a) = Some T'" and "tree_of T' (afix ?N fs)"
            and "fresh T' = fresh T3"
          by blast
        moreover from pt Tip \<open>fs = f # fs'\<close> Cons have "ains (fresh T) k v t = afix ?N fs"
          by (simp add: ains_def a_def)
        moreover from ins \<open>fs = f # fs'\<close> f py Cons f'
        have "insert_rb T k v = fix_insert T3 (Some a)"
          by (simp add: attr_Some)
        ultimately show ?thesis using pt Tip by (simp add: T3_def a_def)
      qed
    qed
  qed
qed


lemma black_paths_nonempty: "black_paths t \<noteq> []"
  by (induction t) auto

lemma invh_paint_black [simp]: "invh (paint_black t) = invh t"
  by (cases t) auto

lemma no_red_red_paint_black: "no_red_red t \<Longrightarrow> no_red_red (paint_black t)"
  by (cases t) auto

lemma red_of_paint_black [simp]: "\<not> red_of (paint_black t)"
  by (cases t) auto

lemma plug_ok:
  "invh t \<Longrightarrow> no_red_red t \<Longrightarrow> ctx_ok (bh t) fs \<Longrightarrow> (red_of t \<longrightarrow> \<not> top_red fs) \<Longrightarrow>
   invh (plug t fs) \<and> no_red_red (plug t fs)"
proof (induction fs arbitrary: t)
  case Nil
  then show ?case by simp
next
  case (Cons f fs)
  obtain d a c k v s where f: "f = Frame d a c k v s" by (cases f)
  show ?case
  proof (cases d)
    case Lft
    have "invh (plug (Fork a c t k v s) fs) \<and> no_red_red (plug (Fork a c t k v s) fs)"
      using Cons.prems by (intro Cons.IH) (auto simp: f)
    with Lft f show ?thesis by simp
  next
    case Rgt
    have "invh (plug (Fork a c s k v t) fs) \<and> no_red_red (plug (Fork a c s k v t) fs)"
      using Cons.prems by (intro Cons.IH) (auto simp: f)
    with Rgt f show ?thesis by simp
  qed
qed

lemma black_top_top_red: "black_top [f] \<Longrightarrow> \<not> top_red [f]"
  by (cases f) (simp add: black_top_def)

lemma astep_ok:
  assumes "invh t" "no_red_red t" "red_of t" "ctx_ok (bh t) (Frame d p True pk pv ps # f # fs)"
  shows "invh (fst (astep t (Frame d p True pk pv ps # f # fs))) \<and>
         no_red_red (fst (astep t (Frame d p True pk pv ps # f # fs))) \<and>
         red_of (fst (astep t (Frame d p True pk pv ps # f # fs))) \<and>
         ctx_ok (bh (fst (astep t (Frame d p True pk pv ps # f # fs))))
           (snd (astep t (Frame d p True pk pv ps # f # fs)))"
proof -
  obtain dg g gc gk gv U where f: "f = Frame dg g gc gk gv U" by (cases f)
  from assms obtain k kc kl kk kv kr where t: "t = Fork k kc kl kk kv kr" by (cases t) auto
  from assms f have gc: "\<not> gc" by simp
  show ?thesis
    using assms gc unfolding f t
    by (cases dg; cases d; cases U) auto
qed

lemma afix_ok:
  "invh t \<Longrightarrow> no_red_red t \<Longrightarrow> red_of t \<Longrightarrow> ctx_ok (bh t) fs \<Longrightarrow> black_top fs \<Longrightarrow>
   invh (afix t fs) \<and> no_red_red (afix t fs) \<and> \<not> red_of (afix t fs)"
proof (induction t fs rule: afix.induct)
  case (1 t)
  then show ?case by (simp add: no_red_red_paint_black)
next
  case (2 t f)
  from "2.prems" black_top_top_red [of f] have "invh (plug t [f]) \<and> no_red_red (plug t [f])"
    by (intro plug_ok) auto
  then show ?case by (simp add: no_red_red_paint_black)
next
  case (3 t d p pc pk pv ps f fs)
  show ?case
  proof (cases pc)
    case False
    with "3.prems" have "invh (plug t (Frame d p pc pk pv ps # f # fs)) \<and>
        no_red_red (plug t (Frame d p pc pk pv ps # f # fs))"
      by (intro plug_ok) auto
    with False show ?thesis by (simp add: no_red_red_paint_black)
  next
    case True
    from astep_ok [of t d p pk pv ps f fs] "3.prems" True
    have "invh (fst (astep t (Frame d p pc pk pv ps # f # fs)))"
      "no_red_red (fst (astep t (Frame d p pc pk pv ps # f # fs)))"
      "red_of (fst (astep t (Frame d p pc pk pv ps # f # fs)))"
      "ctx_ok (bh (fst (astep t (Frame d p pc pk pv ps # f # fs))))
           (snd (astep t (Frame d p pc pk pv ps # f # fs)))"
      by simp_all
    from "3.IH" [OF True this astep_black_top [OF "3.prems"(5)]] True show ?thesis
      by simp
  qed
qed

lemma path_to_ok:
  "invh t \<Longrightarrow> no_red_red t \<Longrightarrow> ctx_ok (bh t) fs \<Longrightarrow> (red_of t \<longrightarrow> \<not> top_red fs) \<Longrightarrow>
   path_to k t fs = (t', fs') \<Longrightarrow>
   invh t' \<and> no_red_red t' \<and> ctx_ok (bh t') fs' \<and> (red_of t' \<longrightarrow> \<not> top_red fs')"
proof (induction t arbitrary: fs)
  case Tip
  then show ?case by auto
next
  case (Fork a c l k' v r)
  show ?case
  proof (cases "k < k'")
    case True
    with Fork.prems have p: "path_to k l (Frame Lft a c k' v r # fs) = (t', fs')" by simp
    show ?thesis
      using Fork.prems(1-4) by (intro Fork.IH(1) [OF _ _ _ _ p]) auto
  next
    case False
    show ?thesis
    proof (cases "k > k'")
      case True
      with False Fork.prems have p: "path_to k r (Frame Rgt a c k' v l # fs) = (t', fs')" by simp
      show ?thesis
        using Fork.prems(1-4) by (intro Fork.IH(2) [OF _ _ _ _ p]) auto
    next
      case nb: False
      with False Fork.prems show ?thesis by auto
    qed
  qed
qed

lemma red_of_plug: "red_of (plug t fs) = (if fs = [] then red_of t else frame_red (last fs))"
proof (induction fs arbitrary: t)
  case Nil
  then show ?case by simp
next
  case (Cons f fs)
  obtain d a c k v s where f: "f = Frame d a c k v s" by (cases f)
  show ?case by (cases d) (simp_all add: f Cons.IH)
qed

lemma top_red_single: "top_red [f] = frame_red f"
  by (cases f) simp

lemma ains_ok:
  assumes "rbt t"
  shows "rbt (ains a k v t)"
proof -
  from assms have t: "invh t" "no_red_red t" "\<not> red_of t" by (simp_all add: rbt_def)
  obtain t' fs where pt: "path_to k t [] = (t', fs)" by (cases "path_to k t []")
  from path_to_ok [OF t(1,2) _ _ pt]
  have ok: "invh t'" "no_red_red t'" "ctx_ok (bh t') fs" "red_of t' \<longrightarrow> \<not> top_red fs"
    by simp_all
  from path_to_last [OF pt] t(3) have lst: "fs \<noteq> [] \<Longrightarrow> \<not> frame_red (last fs)" by simp
  from plug_path_to [of k t "[]"] pt have pl: "plug t' fs = t" by simp
  show ?thesis
  proof (cases t')
    case (Fork x c l k' v' r)
    have "invh (plug (Fork x c l k' v r) fs) \<and> no_red_red (plug (Fork x c l k' v r) fs)"
      using ok Fork by (intro plug_ok) auto
    moreover have "red_of (plug (Fork x c l k' v r) fs) = red_of (plug t' fs)"
      by (simp add: red_of_plug Fork)
    moreover from pt Fork have "ains a k v t = plug (Fork x c l k' v r) fs"
      by (simp add: ains_def)
    ultimately show ?thesis using pl t(3) by (simp add: rbt_def)
  next
    case Tip
    let ?N = "Fork a True Tip k v Tip"
    from ok Tip have cx: "ctx_ok (bh ?N) fs" by simp
    show ?thesis
    proof (cases fs)
      case Nil
      with pt Tip show ?thesis by (simp add: ains_def rbt_def)
    next
      case (Cons f fs')
      show ?thesis
      proof (cases fs')
        case Nil
        from lst Cons Nil have nf: "\<not> top_red [f]" by (simp add: top_red_single)
        have "invh (plug ?N [f]) \<and> no_red_red (plug ?N [f])"
          using cx Cons Nil nf by (intro plug_ok) auto
        moreover have "\<not> red_of (plug ?N [f])"
          using lst Cons Nil by (simp add: red_of_plug)
        moreover from pt Tip Cons Nil have "ains a k v t = plug ?N [f]"
          by (simp add: ains_def)
        ultimately show ?thesis by (simp add: rbt_def)
      next
        case c2: (Cons f' fs'')
        from lst Cons have "black_top fs" by (simp add: black_top_def)
        from afix_ok [OF _ _ _ cx this]
        have "invh (afix ?N fs) \<and> no_red_red (afix ?N fs) \<and> \<not> red_of (afix ?N fs)"
          by simp
        moreover from pt Tip Cons c2 have "ains a k v t = afix ?N fs"
          by (simp add: ains_def)
        ultimately show ?thesis by (simp add: rbt_def)
      qed
    qed
  qed
qed

lemma tree_of_empty: "tree_of RedBlackTree Tip"
  by (simp add: tree_of_def RedBlackTree_def)



lemma inorder_plug: "inorder (plug t fs) = entries_before fs @ inorder t @ entries_after fs"
proof (induction fs arbitrary: t)
  case Nil
  then show ?case by simp
next
  case (Cons f fs)
  obtain d a c k v s where f: "f = Frame d a c k v s" by (cases f)
  show ?case by (cases d) (simp_all add: f Cons.IH)
qed

lemma inorder_paint_black [simp]: "inorder (paint_black t) = inorder t"
  by (cases t) simp_all

lemma astep_inorder:
  "t \<noteq> Tip \<Longrightarrow> inorder (plug (fst (astep t fs)) (snd (astep t fs))) = inorder (plug t fs)"
  by (cases "(t, fs)" rule: astep.cases)
     (auto simp: inorder_plug split: side.splits tree.splits)

lemma astep_fork: "t \<noteq> Tip \<Longrightarrow> fst (astep t fs) \<noteq> Tip"
  by (cases "(t, fs)" rule: astep.cases) (auto split: side.splits tree.splits)

lemma afix_inorder: "t \<noteq> Tip \<Longrightarrow> inorder (afix t fs) = inorder (plug t fs)"
  by (induction t fs rule: afix.induct) (simp_all add: astep_inorder astep_fork)

lemma path_to_parts:
  assumes "path_to k t fs = (t', fs')"
  shows "entries_before fs' @ inorder t' @ entries_after fs' =
         entries_before fs @ inorder t @ entries_after fs"
  using plug_path_to [of k t fs] assms by (simp add: inorder_plug [symmetric])

lemma path_to_bounds:
  "sorted_wrt (<) (map fst (inorder t)) \<Longrightarrow>
   \<forall>x \<in> set (entries_before fs). fst x < k \<Longrightarrow>
   \<forall>x \<in> set (entries_after fs). k < fst x \<Longrightarrow>
   path_to k t fs = (t', fs') \<Longrightarrow>
   (\<forall>x \<in> set (entries_before fs'). fst x < k) \<and> (\<forall>x \<in> set (entries_after fs'). k < fst x) \<and>
   (t' = Tip \<or> (\<exists>x c l v r. t' = Fork x c l k v r))"
proof (induction t arbitrary: fs)
  case Tip
  then show ?case by auto
next
  case (Fork a c l k' v r)
  from Fork.prems(1) have sl: "sorted_wrt (<) (map fst (inorder l))"
    and sr: "sorted_wrt (<) (map fst (inorder r))"
    and lo: "\<forall>x \<in> set (inorder l). fst x < k'" and hi: "\<forall>x \<in> set (inorder r). k' < fst x"
    by (auto simp: sorted_wrt_append)
  show ?case
  proof (cases "k < k'")
    case True
    with Fork.prems have p: "path_to k l (Frame Lft a c k' v r # fs) = (t', fs')" by simp
    show ?thesis
      using Fork.prems(2,3) True hi by (intro Fork.IH(1) [OF sl _ _ p]) auto
  next
    case False
    show ?thesis
    proof (cases "k > k'")
      case True
      with False Fork.prems have p: "path_to k r (Frame Rgt a c k' v l # fs) = (t', fs')" by simp
      show ?thesis
        using Fork.prems(2,3) True lo by (intro Fork.IH(2) [OF sr _ _ p]) auto
    next
      case nb: False
      with False have "k' = k" by simp
      with False Fork.prems show ?thesis by auto
    qed
  qed
qed

lemma ains_inorder:
  assumes "bst t"
  shows "\<exists>xs mid ys. inorder t = xs @ mid @ ys \<and> inorder (ains a k v t) = xs @ (k, v) # ys \<and>
           (\<forall>x \<in> set xs. fst x < k) \<and> (\<forall>y \<in> set ys. k < fst y) \<and>
           (mid = [] \<or> (\<exists>v'. mid = [(k, v')])) \<and>
           (mid = [] \<longleftrightarrow> fst (path_to k t []) = Tip)"
proof -
  obtain t' fs where pt: "path_to k t [] = (t', fs)" by (cases "path_to k t []")
  from assms have "sorted_wrt (<) (map fst (inorder t))" by (simp add: bst_def)
  from path_to_bounds [OF this _ _ pt]
  have lo: "\<forall>x \<in> set (entries_before fs). fst x < k"
    and hi: "\<forall>x \<in> set (entries_after fs). k < fst x"
    and t': "t' = Tip \<or> (\<exists>x c l v r. t' = Fork x c l k v r)"
    by simp_all
  from path_to_parts [OF pt]
  have parts: "inorder t = entries_before fs @ inorder t' @ entries_after fs" by simp
  show ?thesis
  proof (cases t')
    case Tip
    let ?N = "Fork a True Tip k v Tip"
    have "inorder (ains a k v t) = entries_before fs @ (k, v) # entries_after fs"
    proof (cases fs)
      case Nil
      with pt Tip show ?thesis by (simp add: ains_def)
    next
      case (Cons f fs')
      show ?thesis
      proof (cases fs')
        case Nil
        with pt Tip Cons have "ains a k v t = plug ?N fs" by (simp add: ains_def)
        then show ?thesis by (simp add: inorder_plug)
      next
        case c2: (Cons f' fs'')
        with pt Tip Cons have "ains a k v t = afix ?N fs" by (simp add: ains_def)
        then show ?thesis by (simp add: afix_inorder inorder_plug)
      qed
    qed
    with parts Tip lo hi pt show ?thesis
      by (intro exI [of _ "entries_before fs"] exI [of _ "[]"] exI [of _ "entries_after fs"]) simp
  next
    case (Fork x c l k' v' r)
    with t' have kk: "k' = k" by simp
    let ?xs = "entries_before fs @ inorder l" and ?ys = "inorder r @ entries_after fs"
    from assms parts Fork kk have srt: "sorted_wrt (<) (map fst (?xs @ (k, v') # ?ys))"
      by (simp add: bst_def)
    then have b: "\<forall>x \<in> set ?xs. fst x < k" "\<forall>y \<in> set ?ys. k < fst y"
      by (auto simp: sorted_wrt_append)
    from pt Fork have "ains a k v t = plug (Fork x c l k' v r) fs" by (simp add: ains_def)
    then have "inorder (ains a k v t) = ?xs @ (k, v) # ?ys"
      by (simp add: inorder_plug kk)
    moreover from parts Fork kk have "inorder t = ?xs @ [(k, v')] @ ?ys" by simp
    ultimately show ?thesis using b pt Fork
      by (intro exI [of _ ?xs] exI [of _ "[(k, v')]"] exI [of _ ?ys]) simp
  qed
qed

lemma bst_ains:
  assumes "bst t"
  shows "bst (ains a k v t)"
proof -
  from ains_inorder [OF assms, of a k v] obtain xs mid ys
    where t: "inorder t = xs @ mid @ ys" and i: "inorder (ains a k v t) = xs @ (k, v) # ys"
      and lo: "\<forall>x \<in> set xs. fst x < k" and hi: "\<forall>y \<in> set ys. k < fst y"
    by blast
  from assms t have "sorted_wrt (<) (map fst xs)" "sorted_wrt (<) (map fst ys)"
    "\<forall>x \<in> set xs. \<forall>y \<in> set ys. fst x < fst y"
    by (auto simp: bst_def sorted_wrt_append)
  with lo hi i show ?thesis
    by (auto simp: bst_def sorted_wrt_append)
qed

lemma map_of_ains:
  assumes "bst t"
  shows "map_of (inorder (ains a k v t)) = (map_of (inorder t))(k \<mapsto> v)"
proof -
  from ains_inorder [OF assms, of a k v] obtain xs mid ys
    where t: "inorder t = xs @ mid @ ys" and i: "inorder (ains a k v t) = xs @ (k, v) # ys"
      and lo: "\<forall>x \<in> set xs. fst x < k" and hi: "\<forall>y \<in> set ys. k < fst y"
      and mid: "mid = [] \<or> (\<exists>v'. mid = [(k, v')])"
    by blast
  from lo have nk: "map_of xs k = None"
    by (auto simp: map_of_eq_None_iff)
  show ?thesis
  proof
    fix k'
    show "map_of (inorder (ains a k v t)) k' = ((map_of (inorder t))(k \<mapsto> v)) k'"
      using mid nk by (auto simp: t i map_add_def split: option.splits)
  qed
qed

lemma bst_keys_distinct: "bst t \<Longrightarrow> distinct (map fst (inorder t))"
proof -
  have "sorted_wrt (<) xs \<Longrightarrow> distinct xs" for xs :: "string list"
    by (induction xs) auto
  then show "bst t \<Longrightarrow> distinct (map fst (inorder t))" by (simp add: bst_def)
qed





lemma search_helper_sim:
  "shaped (heap T) par t \<Longrightarrow> sorted_wrt (<) (map fst (inorder t)) \<Longrightarrow>
   search_helper T (ptr t) k = Some (map_of (inorder t) k)"
proof (induction t arbitrary: par)
  case Tip
  show ?case by (subst search_helper.simps) simp
next
  case (Fork a c l k' v r)
  from Fork.prems(1) have a0: "a \<noteq> 0"
    and ha: "heap T a = \<lparr>key = Some k', val = Some v, left = ptr l, right = ptr r,
                          parent = par, color = c\<rparr>"
    and shl: "shaped (heap T) (Some a) l" and shr: "shaped (heap T) (Some a) r"
    by simp_all
  from a0 have nn: "Some a \<noteq> NIL" by (simp add: NIL_def)
  from Fork.prems(2) have sl: "sorted_wrt (<) (map fst (inorder l))"
    and sr: "sorted_wrt (<) (map fst (inorder r))"
    and lo: "\<forall>x \<in> set (inorder l). fst x < k'" and hi: "\<forall>x \<in> set (inorder r). k' < fst x"
    by (auto simp: sorted_wrt_append)
  show ?case
  proof (cases "k = k'")
    case True
    from lo True have "map_of (inorder l) k = None"
      by (auto simp: map_of_eq_None_iff)
    with True nn ha show ?thesis
      by (subst search_helper.simps) (simp add: attr_Some map_add_def)
  next
    case ne: False
    show ?thesis
    proof (cases "k < k'")
      case True
      from hi True have "map_of (inorder r) k = None"
        by (auto simp: map_of_eq_None_iff)
      with True ne nn ha Fork.IH(1) [OF shl sl] show ?thesis
        by (subst search_helper.simps)
           (simp add: attr_Some map_add_def split: option.splits)
    next
      case False
      with ne have "k' < k" by simp
      with lo have "map_of (inorder l) k = None"
        by (auto simp: map_of_eq_None_iff)
      with False ne nn ha Fork.IH(2) [OF shr sr] show ?thesis
        by (subst search_helper.simps)
           (simp add: attr_Some map_add_def split: option.splits)
    qed
  qed
qed

lemma search_sim:
  "tree_of T t \<Longrightarrow> bst t \<Longrightarrow> search T k = Some (map_of (inorder t) k)"
  unfolding search_def by (auto simp: tree_of_def bst_def dest: search_helper_sim)






lemma rbt_Tip: "rbt Tip" by (simp add: rbt_def)

lemma bst_Tip: "bst Tip" by (simp add: bst_def)







lemma shorten_url_put: "shorten_url L k url s = put L k (with_scheme url) s"
  by (simp add: shorten_url_def with_scheme_def)

lemma with_scheme_nonempty: "with_scheme url \<noteq> []"
  by (auto simp: with_scheme_def startswith_def)

lemma with_scheme_id:
  "startswith url ''http://'' \<or> startswith url ''https://'' \<Longrightarrow> with_scheme url = url"
  by (auto simp: with_scheme_def)

lemma store_inv_init: "store_inv init_store"
  unfolding store_inv_def
  by (rule exI [of _ Tip]) (simp add: init_store_def tree_of_empty rbt_Tip bst_Tip)

lemma put_inv:
  assumes "store_inv s"
  shows "\<exists>s'. put L k v s = Some s' \<and> store_inv s' \<and> search (url_tree s') k = Some (Some v)"
proof -
  from assms obtain t where T: "tree_of (url_tree s) t" and r: "rbt t" and b: "bst t"
    and m: "map_of (inorder t) = url_map s"
    by (auto simp: store_inv_def)
  from r have "\<not> red_of t" by (simp add: rbt_def)
  from insert_rb_sim [OF T this, of k v] obtain T'
    where i: "insert_rb (url_tree s) k v = Some T'"
      and T': "tree_of T' (ains (fresh (url_tree s)) k v t)"
    by blast
  let ?t' = "ains (fresh (url_tree s)) k v t"
  define r where "r = cuckoo_insert (hashlib_md5 L) (hashlib_sha1 L) k v 100
                        (cuckoo_table1 s, cuckoo_table2 s)"
  define s' where "s' = s\<lparr>url_map := (url_map s)(k \<mapsto> v),
                cuckoo_table1 := fst (snd r), cuckoo_table2 := snd (snd r),
                url_tree := T'\<rparr>"
  from i have p: "put L k v s = Some s'"
    by (simp add: put_def Let_def s'_def r_def)
  have b': "bst ?t'" using b by (rule bst_ains)
  have m': "map_of (inorder ?t') = url_map s'"
    by (simp add: map_of_ains [OF b] m s'_def)
  have "rbt ?t'" using \<open>rbt t\<close> by (rule ains_ok)
  with T' b' m' have "store_inv s'"
    unfolding store_inv_def by (intro exI [of _ ?t']) (simp add: s'_def)
  moreover from search_sim [OF T' b', of k] have "search (url_tree s') k = Some (Some v)"
    by (simp add: s'_def map_of_ains [OF b])
  ultimately show ?thesis using p by blast
qed

lemma update_frequency_inv: "store_inv s \<Longrightarrow> store_inv (update_frequency L k s)"
  by (simp add: store_inv_def update_frequency_def Let_def)

lemma get_inv:
  assumes "store_inv s"
  shows "\<exists>r s'. redirect_to_url L k s = Some (r, s') \<and> store_inv s'"
proof -
  from assms obtain t where T: "tree_of (url_tree s) t" and b: "bst t"
    by (auto simp: store_inv_def)
  from search_sim [OF T b, of k] obtain x where "search (url_tree s) k = Some x" by blast
  then have "\<exists>r s'. redirect_to_url L k s = Some (r, s')"
    by (cases x) (auto simp: redirect_to_url_def Let_def split: option.splits)
  then obtain r s' where g: "redirect_to_url L k s = Some (r, s')" by blast
  from get_cases [OF g] assms have "store_inv s'"
    by (auto simp: update_frequency_inv)
  with g show ?thesis by blast
qed

lemma step_inv: "store_inv s \<Longrightarrow> \<exists>s'. step L s r = Some s' \<and> store_inv s'"
proof (cases r)
  case (Put k v)
  assume "store_inv s"
  from put_inv [OF this, of L k v] Put show ?thesis by auto
next
  case (Get k)
  assume "store_inv s"
  from get_inv [OF this, of L k] Get show ?thesis by auto
qed

lemma run_inv: "store_inv s \<Longrightarrow> \<exists>s'. run L s rs = Some s' \<and> store_inv s'"
proof (induction rs arbitrary: s)
  case Nil
  then show ?case by simp
next
  case (Cons r rs)
  from step_inv [OF Cons.prems, of L r] obtain s1
    where "step L s r = Some s1" "store_inv s1" by blast
  with Cons.IH [of s1] show ?case by auto
qed


lemma reachable_inv: "run L init_store rs = Some s \<Longrightarrow> store_inv s"
  using run_inv [OF store_inv_init, of L rs] by auto

text \<open>
  Claim C1: in every store that a sequence of requests has built, \<^verbatim>\<open>shorten_url\<close> with
  the key \<open>k\<close> and any URL \<open>v\<close>, the empty string included, returns normally; after it,
  and after any further requests that do not store under \<open>k\<close> again, the lookup of \<open>k\<close>
  returns the value that was stored; and after storing another URL \<open>v2\<close> under \<open>k\<close> the
  lookup returns that one. The value stored for \<open>v\<close> is \<open>with_scheme v\<close>: \<open>v\<close> itself if it
  starts with a scheme, and \<open>v\<close> after \<^verbatim>\<open>https://\<close> otherwise, so it is never empty.
\<close>

theorem put_then_get:
  assumes "run L init_store rs0 = Some s"
  shows "\<exists>s1. shorten_url L k v s = Some s1 \<and>
           (\<forall>rs s2. run L s1 rs = Some s2 \<and> (\<forall>v'. Put k v' \<notin> set rs) \<longrightarrow>
              redirect_to_url L k s2 = Some (Inr (with_scheme v), update_frequency L k s2) \<and>
              (\<forall>v2. \<exists>s3. shorten_url L k v2 s2 = Some s3 \<and>
                 redirect_to_url L k s3 = Some (Inr (with_scheme v2), update_frequency L k s3)))"
proof -
  from put_inv [OF reachable_inv [OF assms], of L k "with_scheme v"] obtain s1
    where p: "put L k (with_scheme v) s = Some s1" and i1: "store_inv s1"
    by blast
  have "redirect_to_url L k s2 = Some (Inr (with_scheme v), update_frequency L k s2) \<and>
        (\<forall>v2. \<exists>s3. shorten_url L k v2 s2 = Some s3 \<and>
           redirect_to_url L k s3 = Some (Inr (with_scheme v2), update_frequency L k s3))"
    if r: "run L s1 rs = Some s2" and n: "\<forall>v'. Put k v' \<notin> set rs" for rs s2
  proof -
    from put_then_get_nonempty [OF p with_scheme_nonempty r n]
    have a: "redirect_to_url L k s2 = Some (Inr (with_scheme v), update_frequency L k s2)"
      by simp
    from run_inv [OF i1, of L rs] r have i2: "store_inv s2" by simp
    have "\<exists>s3. shorten_url L k v2 s2 = Some s3 \<and>
             redirect_to_url L k s3 = Some (Inr (with_scheme v2), update_frequency L k s3)" for v2
    proof -
      from put_inv [OF i2, of L k "with_scheme v2"] obtain s3
        where p3: "put L k (with_scheme v2) s2 = Some s3" by blast
      from put_url_map [OF p3] have "url_map s3 k = Some (with_scheme v2)" by simp
      from get_of_nonempty [OF this with_scheme_nonempty] p3 show ?thesis
        by (auto simp: shorten_url_put)
    qed
    with a show ?thesis by blast
  qed
  with p show ?thesis by (auto simp: shorten_url_put)
qed

theorem put_then_get_witness:
  "\<exists>s1. shorten_url sample_library ''0000000'' [] init_store = Some s1 \<and>
     redirect_to_url sample_library ''0000000'' s1 =
       Some (Inr ''https://'', update_frequency sample_library ''0000000'' s1) \<and>
     (\<exists>s3. shorten_url sample_library ''0000000'' ''http://b.example'' s1 = Some s3 \<and>
        redirect_to_url sample_library ''0000000'' s3 =
          Some (Inr ''http://b.example'', update_frequency sample_library ''0000000'' s3))"
proof -
  have r0: "run sample_library init_store [] = Some init_store" by simp
  from put_then_get [OF r0, of "''0000000''" "[]"] obtain s1
    where p: "shorten_url sample_library ''0000000'' [] init_store = Some s1"
      and a: "\<And>rs s2. run sample_library s1 rs = Some s2 \<Longrightarrow> \<forall>v'. Put ''0000000'' v' \<notin> set rs \<Longrightarrow>
                redirect_to_url sample_library ''0000000'' s2 =
                  Some (Inr (with_scheme []), update_frequency sample_library ''0000000'' s2) \<and>
                (\<forall>v2. \<exists>s3. shorten_url sample_library ''0000000'' v2 s2 = Some s3 \<and>
                   redirect_to_url sample_library ''0000000'' s3 =
                     Some (Inr (with_scheme v2), update_frequency sample_library ''0000000'' s3))"
    by blast
  have w1: "with_scheme [] = ''https://''"
    by (simp add: with_scheme_def startswith_def)
  have w2: "with_scheme ''http://b.example'' = ''http://b.example''"
    by (simp add: with_scheme_def startswith_def)
  from a [of "[]" s1] have
    "redirect_to_url sample_library ''0000000'' s1 =
       Some (Inr ''https://'', update_frequency sample_library ''0000000'' s1)"
    and "\<exists>s3. shorten_url sample_library ''0000000'' ''http://b.example'' s1 = Some s3 \<and>
           redirect_to_url sample_library ''0000000'' s3 =
             Some (Inr ''http://b.example'', update_frequency sample_library ''0000000'' s3)"
    using w1 w2 by (simp, metis run.simps(1) empty_iff list.set(1))
  with p show ?thesis by blast
qed





lemma single_entry:
  "distinct (map fst xs) \<Longrightarrow> map_of xs k = Some v \<Longrightarrow> filter (\<lambda>p. fst p = k) xs = [(k, v)]"
proof (induction xs)
  case Nil
  then show ?case by simp
next
  case (Cons p xs)
  obtain k' v' where p: "p = (k', v')" by (cases p)
  show ?case
  proof (cases "k' = k")
    case True
    with Cons.prems p have "k \<notin> fst ` set xs" and "v' = v" by simp_all
    then have "filter (\<lambda>p. fst p = k) xs = []"
      by (auto simp: filter_empty_conv)
    with True p \<open>v' = v\<close> show ?thesis by simp
  next
    case False
    with Cons p show ?thesis by simp
  qed
qed

text \<open>
  The tree half of claim C8 holds: after \<^verbatim>\<open>put\<close> of a key the tree has exactly one
  pair for it, with the value written last.
\<close>

lemma put_tree_single_entry:
  assumes "run L init_store rs = Some s" and "put L k v s = Some s'"
  shows "\<exists>t. tree_of (url_tree s') t \<and> filter (\<lambda>p. fst p = k) (inorder t) = [(k, v)]"
proof -
  from put_inv [OF reachable_inv [OF assms(1)], of L k v] assms(2) have "store_inv s'" by auto
  then obtain t where t: "tree_of (url_tree s') t" and b: "bst t"
    and m: "map_of (inorder t) = url_map s'"
    by (auto simp: store_inv_def)
  from put_url_map [OF assms(2)] m have "map_of (inorder t) k = Some v" by simp
  from single_entry [OF bst_keys_distinct [OF b] this] t show ?thesis by blast
qed



























end
